theory Spec2Isabelle
  imports Complex_Main "HOL-Library.Multiset"
begin

section \<open>Grids and errors\<close>

text \<open>
  A two-dimensional numpy array of shape (h, w) is the list of its h rows, each a list of
  w samples; an array of shape (h, w, c) is a grid of pixels, each the list of its c
  samples. Floating-point numbers are modelled as real and complex numbers, so every
  statement below is about exact arithmetic. Every exception the code can raise is a
  value of \<open>error\<close>.
\<close>

type_synonym 'a grid = "'a list list"

datatype error =
  InvalidShape | PercentileRange | DivisionByZero | BroadcastError | NegativeDimensions

datatype 'a image = Gray "'a grid" | Color "'a list grid"

definition height :: "'a grid \<Rightarrow> nat" where
  "height g = length g"

definition width :: "'a grid \<Rightarrow> nat" where
  "width g = (case g of [] \<Rightarrow> 0 | r # _ \<Rightarrow> length r)"

definition rect :: "nat \<Rightarrow> nat \<Rightarrow> 'a grid \<Rightarrow> bool" where
  "rect h w g = (length g = h \<and> list_all (\<lambda>r. length r = w) g)"

text \<open>A loop whose body may raise: the first error ends it.\<close>

fun foldE :: "('a \<Rightarrow> 's \<Rightarrow> error + 's) \<Rightarrow> 'a list \<Rightarrow> 's \<Rightarrow> error + 's" where
  "foldE f [] s = Inr s"
| "foldE f (x # xs) s = (case f x s of Inl e \<Rightarrow> Inl e | Inr s' \<Rightarrow> foldE f xs s')"

section \<open>The transform: numpy's fft2, ifft2, fftshift, ifftshift\<close>

text \<open>
  The one-dimensional transforms follow numpy's documented definition; the
  two-dimensional ones run the one-dimensional transform over the last axis (the rows)
  and then over the first (the columns), as numpy does. \<open>roll\<close> is numpy's roll along one
  axis, by which fftshift and ifftshift are defined.
\<close>

definition twiddle :: "nat \<Rightarrow> int \<Rightarrow> complex" where
  "twiddle n j = cis (2 * pi * real_of_int j / real n)"

definition fft :: "complex list \<Rightarrow> complex list" where
  "fft a = (let n = length a in
     map (\<lambda>k. sum_list (map (\<lambda>m. a ! m * twiddle n (- (int k * int m))) [0..<n])) [0..<n])"

definition ifft :: "complex list \<Rightarrow> complex list" where
  "ifft a = (let n = length a in
     map (\<lambda>m. sum_list (map (\<lambda>k. a ! k * twiddle n (int k * int m)) [0..<n]) / of_nat n)
         [0..<n])"

definition transpose_grid :: "'a grid \<Rightarrow> 'a grid" where
  "transpose_grid g = map (\<lambda>n. map (\<lambda>m. g ! m ! n) [0..<height g]) [0..<width g]"

definition fft2 :: "complex grid \<Rightarrow> complex grid" where
  "fft2 g = transpose_grid (map fft (transpose_grid (map fft g)))"

definition ifft2 :: "complex grid \<Rightarrow> complex grid" where
  "ifft2 g = transpose_grid (map ifft (transpose_grid (map ifft g)))"

definition roll :: "int \<Rightarrow> 'a list \<Rightarrow> 'a list" where
  "roll shift xs = rotate (nat ((- shift) mod int (length xs))) xs"

definition fftshift :: "'a grid \<Rightarrow> 'a grid" where
  "fftshift g = roll (int (height g div 2)) (map (roll (int (width g div 2))) g)"

definition ifftshift :: "'a grid \<Rightarrow> 'a grid" where
  "ifftshift g = roll (- int (height g div 2)) (map (roll (- int (width g div 2))) g)"

text \<open>
  The two halves every channel filter shares: \<open>f_shift = fftshift (fft2 channel)\<close>, and
  \<open>real (ifft2 (ifftshift f_filtered))\<close> with \<open>f_filtered = f_shift * mask\<close>.
\<close>

definition forward :: "real grid \<Rightarrow> complex grid" where
  "forward channel = fftshift (fft2 (map (map complex_of_real) channel))"

definition inverse_transform :: "complex grid \<Rightarrow> real grid" where
  "inverse_transform f_filtered = map (map Re) (ifft2 (ifftshift f_filtered))"

definition apply_mask :: "complex grid \<Rightarrow> real grid \<Rightarrow> complex grid" where
  "apply_mask f_shift msk = map2 (map2 (\<lambda>z v. z * complex_of_real v)) f_shift msk"

definition magnitude :: "complex grid \<Rightarrow> real grid" where
  "magnitude f_shift = map (map cmod) f_shift"

section \<open>Masks\<close>

definition ones :: "nat \<Rightarrow> nat \<Rightarrow> real grid" where
  "ones h w = replicate h (replicate w 1)"

definition center_mask :: "nat \<Rightarrow> nat \<Rightarrow> int \<Rightarrow> nat \<Rightarrow> nat \<Rightarrow> bool" where
  "center_mask h w protect_center y x =
     ((int y - int (h div 2))\<^sup>2 + (int x - int (w div 2))\<^sup>2 \<le> protect_center\<^sup>2)"

subsection \<open>Line-band mask (fft_filter_channel_lines)\<close>

definition falloff :: "int \<Rightarrow> int \<Rightarrow> real" where
  "falloff line_width dst =
     (if dst < line_width * 2
      then real_of_int (line_width * 2 - dst) / real_of_int line_width else 0)"

definition reduction :: "int \<Rightarrow> real \<Rightarrow> int \<Rightarrow> real" where
  "reduction line_width attenuation dst =
     (if dst \<le> line_width then attenuation
      else attenuation * falloff line_width dst)"

definition scale_row :: "real grid \<Rightarrow> nat \<Rightarrow> real \<Rightarrow> real grid" where
  "scale_row msk y f = msk[y := map (\<lambda>v. v * f) (msk ! y)]"

definition scale_col :: "real grid \<Rightarrow> nat \<Rightarrow> real \<Rightarrow> real grid" where
  "scale_col msk x f = map (\<lambda>row. row[x := row ! x * f]) msk"

definition filter_rows :: "nat \<Rightarrow> int \<Rightarrow> real \<Rightarrow> real grid \<Rightarrow> real grid" where
  "filter_rows h line_width attenuation msk =
     (if line_width > 0 then
        fold (\<lambda>dy m.
                let y_idx = int (h div 2) + dy in
                if 0 \<le> y_idx \<and> y_idx < int h
                then scale_row m (nat y_idx) (1 - reduction line_width attenuation \<bar>dy\<bar>)
                else m)
             [- line_width * 2 .. line_width * 2] msk
      else msk)"

definition filter_cols :: "nat \<Rightarrow> int \<Rightarrow> real \<Rightarrow> real grid \<Rightarrow> real grid" where
  "filter_cols w line_width attenuation msk =
     (if line_width > 0 then
        fold (\<lambda>dx m.
                let x_idx = int (w div 2) + dx in
                if 0 \<le> x_idx \<and> x_idx < int w
                then scale_col m (nat x_idx) (1 - reduction line_width attenuation \<bar>dx\<bar>)
                else m)
             [- line_width * 2 .. line_width * 2] msk
      else msk)"

definition restore_center :: "nat \<Rightarrow> nat \<Rightarrow> int \<Rightarrow> real grid \<Rightarrow> real grid" where
  "restore_center h w protect_center msk =
     map (\<lambda>y. map (\<lambda>x. if center_mask h w protect_center y x then 1 else msk ! y ! x) [0..<w])
         [0..<h]"

definition lines_mask :: "nat \<Rightarrow> nat \<Rightarrow> int \<Rightarrow> int \<Rightarrow> real \<Rightarrow> real grid" where
  "lines_mask h w line_width protect_center attenuation =
     restore_center h w protect_center
       (filter_cols w line_width attenuation
         (filter_rows h line_width attenuation (ones h w)))"

definition fft_filter_channel_lines ::
  "real grid \<Rightarrow> int \<Rightarrow> int \<Rightarrow> real \<Rightarrow> error + real grid" where
  "fft_filter_channel_lines channel line_width protect_center attenuation =
     (let h = height channel; w = width channel in
      if h = 0 \<or> w = 0 then Inl InvalidShape
      else
        let f_shift = forward channel;
            msk = lines_mask h w line_width protect_center attenuation;
            f_filtered = apply_mask f_shift msk
        in Inr (inverse_transform f_filtered))"

subsection \<open>Peak-notch mask (fft_filter_channel)\<close>

text \<open>
  numpy's percentile with its default linear interpolation. It rejects a percentile
  outside [0, 100]. The empty sample is never reached from the filter, which has
  rejected an empty grid before.
\<close>

definition percentile :: "real list \<Rightarrow> real \<Rightarrow> error + real" where
  "percentile a q =
     (if q < 0 \<or> 100 < q then Inl PercentileRange
      else if a = [] then Inl InvalidShape
      else
        let s = sort a;
            n = length s;
            virtual_index = q / 100 * real (n - 1);
            previous = nat \<lfloor>virtual_index\<rfloor>;
            nxt = min (previous + 1) (n - 1);
            gamma = virtual_index - real previous
        in Inr (s ! previous + (s ! nxt - s ! previous) * gamma))"

definition magnitude_for_threshold :: "nat \<Rightarrow> nat \<Rightarrow> int \<Rightarrow> real grid \<Rightarrow> real grid" where
  "magnitude_for_threshold h w protect_center mag =
     map (\<lambda>y. map (\<lambda>x. if center_mask h w protect_center y x then 0 else mag ! y ! x) [0..<w])
         [0..<h]"

definition threshold :: "nat \<Rightarrow> nat \<Rightarrow> real \<Rightarrow> int \<Rightarrow> real grid \<Rightarrow> error + real" where
  "threshold h w threshold_percentile protect_center mag =
     percentile (concat (magnitude_for_threshold h w protect_center mag)) threshold_percentile"

definition peaks :: "nat \<Rightarrow> nat \<Rightarrow> int \<Rightarrow> real grid \<Rightarrow> real \<Rightarrow> bool grid" where
  "peaks h w protect_center mag thr =
     map (\<lambda>y. map (\<lambda>x. if center_mask h w protect_center y x then False else mag ! y ! x > thr)
                [0..<w])
         [0..<h]"

text \<open>\<open>zip(*np.where(peaks))\<close>: the coordinates of the peaks in row-major order.\<close>

definition peak_coords :: "nat \<Rightarrow> nat \<Rightarrow> bool grid \<Rightarrow> (nat \<times> nat) list" where
  "peak_coords h w pk =
     concat (map (\<lambda>y. map (\<lambda>x. (y, x)) (filter (\<lambda>x. pk ! y ! x) [0..<w])) [0..<h])"

text \<open>
  \<open>(dist / notch_radius) ** 2 if dist > 0 else 0\<close>: the division is evaluated only when
  \<open>dist > 0\<close>; a zero divisor there is the model's \<open>DivisionByZero\<close>.
\<close>

definition notch_factor :: "real \<Rightarrow> int \<Rightarrow> error + real" where
  "notch_factor dst notch_radius =
     (if dst > 0
      then (if notch_radius = 0 then Inl DivisionByZero
            else Inr ((dst / real_of_int notch_radius)\<^sup>2))
      else Inr 0)"

definition mul_at :: "real grid \<Rightarrow> nat \<Rightarrow> nat \<Rightarrow> real \<Rightarrow> real grid" where
  "mul_at msk y x f = msk[y := (msk ! y)[x := msk ! y ! x * f]]"

definition notch_cell ::
  "nat \<Rightarrow> nat \<Rightarrow> int \<Rightarrow> nat \<times> nat \<Rightarrow> int \<Rightarrow> int \<Rightarrow> real grid \<Rightarrow> error + real grid" where
  "notch_cell h w notch_radius p dy dx msk =
     (let ny = int (fst p) + dy; nx = int (snd p) + dx in
      if 0 \<le> ny \<and> ny < int h \<and> 0 \<le> nx \<and> nx < int w then
        let dst = sqrt (real_of_int (dy\<^sup>2 + dx\<^sup>2)) in
        if dst \<le> real_of_int notch_radius then
          (case notch_factor dst notch_radius of
             Inl e \<Rightarrow> Inl e
           | Inr f \<Rightarrow> Inr (mul_at msk (nat ny) (nat nx) f))
        else Inr msk
      else Inr msk)"

definition notch_peak ::
  "nat \<Rightarrow> nat \<Rightarrow> int \<Rightarrow> nat \<times> nat \<Rightarrow> real grid \<Rightarrow> error + real grid" where
  "notch_peak h w notch_radius p msk =
     foldE (\<lambda>dy. foldE (\<lambda>dx. notch_cell h w notch_radius p dy dx)
                        [- notch_radius .. notch_radius])
           [- notch_radius .. notch_radius] msk"

definition peaks_mask ::
  "nat \<Rightarrow> nat \<Rightarrow> real grid \<Rightarrow> real \<Rightarrow> int \<Rightarrow> int \<Rightarrow> error + real grid" where
  "peaks_mask h w mag threshold_percentile notch_radius protect_center =
     (case threshold h w threshold_percentile protect_center mag of
        Inl e \<Rightarrow> Inl e
      | Inr thr \<Rightarrow>
          foldE (notch_peak h w notch_radius)
                (peak_coords h w (peaks h w protect_center mag thr)) (ones h w))"

definition fft_filter_channel ::
  "real grid \<Rightarrow> real \<Rightarrow> int \<Rightarrow> int \<Rightarrow> error + real grid" where
  "fft_filter_channel channel threshold_percentile notch_radius protect_center =
     (let h = height channel; w = width channel in
      if h = 0 \<or> w = 0 then Inl InvalidShape
      else
        let f_shift = forward channel in
        case peaks_mask h w (magnitude f_shift) threshold_percentile notch_radius protect_center of
          Inl e \<Rightarrow> Inl e
        | Inr msk \<Rightarrow> Inr (inverse_transform (apply_mask f_shift msk)))"

text \<open>
  The sample the threshold would be taken over if the bins of the disc were left out of
  the statistics altogether, for comparison with \<open>magnitude_for_threshold\<close>.
\<close>

definition outside_values :: "nat \<Rightarrow> nat \<Rightarrow> int \<Rightarrow> real grid \<Rightarrow> real list" where
  "outside_values h w protect_center mag =
     concat (map (\<lambda>y. map (\<lambda>x. mag ! y ! x)
                          (filter (\<lambda>x. \<not> center_mask h w protect_center y x) [0..<w]))
                 [0..<h])"

definition inside_count :: "nat \<Rightarrow> nat \<Rightarrow> int \<Rightarrow> nat" where
  "inside_count h w protect_center =
     sum_list (map (\<lambda>y. length (filter (\<lambda>x. center_mask h w protect_center y x) [0..<w]))
                   [0..<h])"

section \<open>Whole images (fft_remove_pattern)\<close>

definition channels :: "'a list grid \<Rightarrow> nat" where
  "channels img =
     (case img of [] \<Rightarrow> 0 | row # _ \<Rightarrow> (case row of [] \<Rightarrow> 0 | px # _ \<Rightarrow> length px))"

definition rect3 :: "nat \<Rightarrow> nat \<Rightarrow> nat \<Rightarrow> 'a list grid \<Rightarrow> bool" where
  "rect3 h w c img = (rect h w img \<and> list_all (list_all (\<lambda>px. length px = c)) img)"

definition get_channel :: "'a list grid \<Rightarrow> nat \<Rightarrow> 'a grid" where
  "get_channel img c = map (map (\<lambda>px. px ! c)) img"

definition set_channel :: "'a list grid \<Rightarrow> nat \<Rightarrow> 'a grid \<Rightarrow> 'a list grid" where
  "set_channel result c plane = map2 (map2 (\<lambda>px v. px[c := v])) result plane"

definition zeros_like :: "'a list grid \<Rightarrow> real list grid" where
  "zeros_like img = map (map (map (\<lambda>_. 0))) img"

definition filter_plane ::
  "string \<Rightarrow> real \<Rightarrow> int \<Rightarrow> int \<Rightarrow> int \<Rightarrow> real \<Rightarrow> real grid \<Rightarrow> error + real grid" where
  "filter_plane method threshold_percentile notch_radius protect_center line_width attenuation
       channel =
     (if method = ''lines''
      then fft_filter_channel_lines channel line_width protect_center attenuation
      else fft_filter_channel channel threshold_percentile notch_radius protect_center)"

definition fft_remove_pattern ::
  "real image \<Rightarrow> real \<Rightarrow> int \<Rightarrow> int \<Rightarrow> string \<Rightarrow> int \<Rightarrow> real \<Rightarrow> error + real image" where
  "fft_remove_pattern im threshold_percentile notch_radius protect_center method
       line_width attenuation =
     (case im of
        Gray g \<Rightarrow>
          (case filter_plane method threshold_percentile notch_radius protect_center
                  line_width attenuation g of
             Inl e \<Rightarrow> Inl e
           | Inr out \<Rightarrow> Inr (Gray out))
      | Color img \<Rightarrow>
          (case foldE (\<lambda>c result.
                   case filter_plane method threshold_percentile notch_radius protect_center
                          line_width attenuation (get_channel img c) of
                     Inl e \<Rightarrow> Inl e
                   | Inr plane \<Rightarrow> Inr (set_channel result c plane))
                 [0..<channels img] (zeros_like img) of
             Inl e \<Rightarrow> Inl e
           | Inr result \<Rightarrow> Inr (Color result)))"

section \<open>Tiling (create_tiled_texture)\<close>

text \<open>
  The tiler first brings its input to three axes: a 2-D array gets a trailing axis of
  length one. The test it uses for that is \<open>channels == 1\<close>, so a 3-D array with one
  channel gets a fourth axis (\<open>extra_axis\<close>), and writing such a tile into the 3-D
  result is rejected by numpy's broadcasting unless the tile is a single pixel.
\<close>

definition flipud :: "'b grid \<Rightarrow> 'b grid" where
  "flipud tile = rev tile"

definition fliplr :: "'b grid \<Rightarrow> 'b grid" where
  "fliplr tile = map rev tile"

definition zeros :: "nat \<Rightarrow> nat \<Rightarrow> nat \<Rightarrow> ('a::zero) list grid" where
  "zeros h w c = replicate h (replicate w (replicate c 0))"

definition set_region :: "'b grid \<Rightarrow> nat \<Rightarrow> nat \<Rightarrow> nat \<Rightarrow> nat \<Rightarrow> 'b grid \<Rightarrow> 'b grid" where
  "set_region result y_start h x_start w tile =
     map (\<lambda>y. if y_start \<le> y \<and> y < y_start + h
              then map (\<lambda>x. if x_start \<le> x \<and> x < x_start + w
                            then tile ! (y - y_start) ! (x - x_start)
                            else result ! y ! x)
                       [0..<length (result ! y)]
              else result ! y)
         [0..<length result]"

definition place_tile ::
  "nat \<Rightarrow> nat \<Rightarrow> bool \<Rightarrow> bool \<Rightarrow> 'b grid \<Rightarrow> nat \<Rightarrow> nat \<Rightarrow> 'b grid \<Rightarrow> error + 'b grid" where
  "place_tile h w extra_axis mirror image3 ty tx result =
     (let y_start = ty * h;
          x_start = tx * w;
          mirror_h = (if mirror then tx mod 2 = 1 else False);
          mirror_v = (if mirror then ty mod 2 = 1 else False);
          tile = image3;
          tile = (if mirror_v then flipud tile else tile);
          tile = (if mirror_h then fliplr tile else tile)
      in if extra_axis \<and> \<not> (h = 1 \<and> w = 1) then Inl BroadcastError
         else Inr (set_region result y_start h x_start w tile))"

definition create_tiled_texture ::
  "('a::zero) image \<Rightarrow> int \<Rightarrow> int \<Rightarrow> bool \<Rightarrow> error + 'a image" where
  "create_tiled_texture im tiles_x tiles_y mirror =
     (let h = (case im of Gray g \<Rightarrow> height g | Color img \<Rightarrow> height img);
          w = (case im of Gray g \<Rightarrow> width g | Color img \<Rightarrow> width img);
          chans = (case im of Gray g \<Rightarrow> 1 | Color img \<Rightarrow> channels img);
          extra_axis = (case im of Gray g \<Rightarrow> False | Color img \<Rightarrow> chans = 1);
          image3 = (case im of Gray g \<Rightarrow> map (map (\<lambda>v. [v])) g | Color img \<Rightarrow> img);
          result_h = int h * tiles_y;
          result_w = int w * tiles_x
      in if result_h < 0 \<or> result_w < 0 then Inl NegativeDimensions
         else
           case foldE (\<lambda>ty. foldE (place_tile h w extra_axis mirror image3 ty)
                                   [0..<nat tiles_x])
                      [0..<nat tiles_y] (zeros (nat result_h) (nat result_w) chans) of
             Inl e \<Rightarrow> Inl e
           | Inr result \<Rightarrow>
               Inr (if chans = 1 then Gray (map (map (\<lambda>px. px ! 0)) result) else Color result))"

text \<open>The h-by-w block of a grid at tile coordinates (tx, ty).\<close>

definition block :: "'b grid \<Rightarrow> nat \<Rightarrow> nat \<Rightarrow> nat \<Rightarrow> nat \<Rightarrow> 'b grid" where
  "block g h w ty tx = map (\<lambda>y. map (\<lambda>x. g ! (ty * h + y) ! (tx * w + x)) [0..<w]) [0..<h]"

section \<open>Notions used in the statements and proofs\<close>

text \<open>
  \<open>kernel\<close> is the factor one peak contributes to a bin at offset (dy, dx);
  \<open>notch_update\<close> is the body of the notch loops as a total function, shown below to be
  what \<open>notch_cell\<close> returns; \<open>euclid\<close> is the Euclidean distance between two bins;
  \<open>unit_grid\<close> says that every value of a grid lies in [0,1]; \<open>spectrum_peaks\<close> is the
  set of detected peaks. For the tiler, \<open>mirrored\<close> is the tile expected at tile
  coordinates (tx, ty), and \<open>tiles_written\<close> says that the tiles of a set of coordinates
  stand in the result.
\<close>

definition kernel :: "int \<Rightarrow> int \<Rightarrow> int \<Rightarrow> real" where
  "kernel notch_radius dy dx =
     (if 0 \<le> notch_radius \<and> dy\<^sup>2 + dx\<^sup>2 \<le> notch_radius\<^sup>2
      then real_of_int (dy\<^sup>2 + dx\<^sup>2) / real_of_int (notch_radius\<^sup>2) else 1)"

definition notch_update ::
  "nat \<Rightarrow> nat \<Rightarrow> int \<Rightarrow> nat \<times> nat \<Rightarrow> int \<Rightarrow> int \<Rightarrow> real grid \<Rightarrow> real grid" where
  "notch_update h w notch_radius p dy dx msk =
     (let ny = int (fst p) + dy; nx = int (snd p) + dx in
      if 0 \<le> ny \<and> ny < int h \<and> 0 \<le> nx \<and> nx < int w
         \<and> 0 \<le> notch_radius \<and> dy\<^sup>2 + dx\<^sup>2 \<le> notch_radius\<^sup>2
      then mul_at msk (nat ny) (nat nx) (kernel notch_radius dy dx)
      else msk)"

definition euclid :: "nat \<times> nat \<Rightarrow> nat \<times> nat \<Rightarrow> real" where
  "euclid b p = sqrt (real_of_int ((int (fst b) - int (fst p))\<^sup>2 + (int (snd b) - int (snd p))\<^sup>2))"

definition unit_grid :: "real grid \<Rightarrow> bool" where
  "unit_grid g = list_all (list_all (\<lambda>v. 0 \<le> v \<and> v \<le> 1)) g"

definition spectrum_peaks :: "nat \<Rightarrow> nat \<Rightarrow> int \<Rightarrow> real grid \<Rightarrow> real \<Rightarrow> (nat \<times> nat) set" where
  "spectrum_peaks h w protect_center mag thr =
     set (peak_coords h w (peaks h w protect_center mag thr))"

definition mirrored :: "bool \<Rightarrow> nat \<Rightarrow> nat \<Rightarrow> 'b grid \<Rightarrow> 'b grid" where
  "mirrored mirror ty tx g =
     (if mirror \<and> odd tx then fliplr else id) ((if mirror \<and> odd ty then flipud else id) g)"

definition tiles_written ::
  "nat \<Rightarrow> nat \<Rightarrow> bool \<Rightarrow> 'b grid \<Rightarrow> (nat \<times> nat) set \<Rightarrow> 'b grid \<Rightarrow> bool" where
  "tiles_written h w mirror image3 S res =
     (\<forall>ty tx y x. (ty, tx) \<in> S \<and> y < h \<and> x < w
        \<longrightarrow> res ! (ty * h + y) ! (tx * w + x) = mirrored mirror ty tx image3 ! y ! x)"

section \<open>Inverting the transform\<close>

lemma sum_list_upt: "sum_list (map f [0..<n]) = (\<Sum>i<n. f i)"
  by (simp add: interv_sum_list_conv_sum_set_nat atLeast0LessThan)

lemma twiddle_add: "twiddle n (a + b) = twiddle n a * twiddle n b"
  by (simp add: twiddle_def cis_mult ring_distribs add_divide_distrib)

lemma twiddle_pow: "twiddle n (int k * d) = twiddle n d ^ k"
proof -
  have "real k * (2 * pi * real_of_int d / real n) = 2 * pi * real_of_int (int k * d) / real n"
    by simp
  then show ?thesis by (simp add: twiddle_def DeMoivre del: of_int_mult times_divide_eq_right)
qed

lemma twiddle_period: 
  assumes "0 < n" shows "twiddle n (int n * d) = 1"
proof -
  have "2 * pi * real_of_int (int n * d) / real n = 2 * pi * real_of_int d"
    using assms by simp
  then show ?thesis by (simp add: twiddle_def)
qed

lemma twiddle_eq_1:
  assumes "0 < n" and "twiddle n d = 1" shows "int n dvd d"
proof -
  have "cos (2 * pi * real_of_int d / real n) = 1"
    using assms(2) by (simp add: twiddle_def complex_eq_iff)
  then obtain j :: int where j: "2 * pi * real_of_int d / real n = real_of_int j * 2 * pi"
    using cos_one_2pi_int by blast
  have "real_of_int d = real_of_int j * real n"
    using j assms(1) by (simp add: field_simps)
  then have "d = j * int n"
    by (metis of_int_eq_iff of_int_mult of_int_of_nat_eq)
  then show ?thesis by simp
qed

lemma twiddle_sum:
  assumes "0 < n"
  shows "(\<Sum>k<n. twiddle n (int k * d)) = (if int n dvd d then of_nat n else 0)"
proof (cases "int n dvd d")
  case True
  then obtain c where c: "d = int n * c" by (elim dvdE)
  have "twiddle n (int k * d) = 1" for k
  proof -
    have "int k * d = int n * (int k * c)" unfolding c by (simp only: mult.left_commute)
    then show ?thesis using twiddle_period [OF assms, of "int k * c"] by (simp only:)
  qed
  then show ?thesis using True by simp
next
  case False
  let ?z = "twiddle n d"
  have ne: "?z \<noteq> 1" using twiddle_eq_1 [OF assms] False by blast
  have "?z ^ n = 1" 
    using twiddle_period [OF assms, of d] by (simp add: twiddle_pow)
  then have "(\<Sum>k<n. ?z ^ k) = 0"
    using ne by (simp add: geometric_sum)
  then show ?thesis using False by (simp add: twiddle_pow)
qed

lemma length_fft [simp]: "length (fft a) = length a"
  by (simp add: fft_def Let_def)

lemma length_ifft [simp]: "length (ifft a) = length a"
  by (simp add: ifft_def Let_def)

lemma nth_fft: "k < length a \<Longrightarrow>
  fft a ! k = (\<Sum>m<length a. a ! m * twiddle (length a) (- (int k * int m)))"
  by (simp add: fft_def Let_def sum_list_upt)

lemma nth_ifft: "m < length a \<Longrightarrow>
  ifft a ! m = (\<Sum>k<length a. a ! k * twiddle (length a) (int k * int m)) / of_nat (length a)"
  by (simp add: ifft_def Let_def sum_list_upt)

lemma dvd_diff_small:
  assumes "m < n" "j < n" shows "int n dvd (int m - int j) \<longleftrightarrow> m = j"
proof
  assume d: "int n dvd (int m - int j)"
  have "\<bar>int m - int j\<bar> < int n" using assms by linarith
  have "int m - int j = 0"
  proof (rule ccontr)
    assume "int m - int j \<noteq> 0"
    then have "\<bar>int n\<bar> \<le> \<bar>int m - int j\<bar>" using d by (rule dvd_imp_le_int)
    then show False using \<open>\<bar>int m - int j\<bar> < int n\<close> by simp
  qed
  then show "m = j" by simp
qed simp

lemma ifft_fft: "ifft (fft a) = a"
proof (rule nth_equalityI)
  show "length (ifft (fft a)) = length a" by simp
next
  fix m assume "m < length (ifft (fft a))"
  then have m: "m < length a" by simp
  let ?n = "length a"
  have pos: "0 < ?n" using m by auto
  have "(\<Sum>k<?n. fft a ! k * twiddle ?n (int k * int m))
      = (\<Sum>k<?n. \<Sum>j<?n. a ! j * twiddle ?n (int k * (int m - int j)))"
  proof (rule sum.cong [OF refl])
    fix k assume "k \<in> {..<?n}"
    then have k: "k < ?n" by simp
    have tw: "twiddle ?n (- (int k * int j)) * twiddle ?n (int k * int m)
        = twiddle ?n (int k * (int m - int j))" for j
      by (simp add: twiddle_add [symmetric] algebra_simps)
    show "fft a ! k * twiddle ?n (int k * int m)
        = (\<Sum>j<?n. a ! j * twiddle ?n (int k * (int m - int j)))"
      by (simp add: nth_fft [OF k] sum_distrib_right mult.assoc tw)
  qed
  also have "\<dots> = (\<Sum>j<?n. a ! j * (\<Sum>k<?n. twiddle ?n (int k * (int m - int j))))"
    by (subst sum.swap) (simp add: sum_distrib_left)
  also have "\<dots> = (\<Sum>j<?n. a ! j * (if j = m then of_nat ?n else 0))"
  proof (rule sum.cong [OF refl])
    fix j assume "j \<in> {..<?n}"
    then have "j < ?n" by simp
    then show "a ! j * (\<Sum>k<?n. twiddle ?n (int k * (int m - int j)))
       = a ! j * (if j = m then of_nat ?n else 0)"
      using dvd_diff_small [OF m, of j] by (auto simp add: twiddle_sum [OF pos])
  qed
  also have "\<dots> = a ! m * of_nat ?n"
    using m by (simp add: if_distrib [of "\<lambda>x. _ * x"] sum.delta' cong: if_cong)
  finally show "ifft (fft a) ! m = a ! m"
    using m pos by (simp add: nth_ifft)
qed

subsection \<open>Shapes\<close>

lemma rectI: "length g = h \<Longrightarrow> (\<And>y. y < h \<Longrightarrow> length (g ! y) = w) \<Longrightarrow> rect h w g"
  by (auto simp: rect_def list_all_length)

lemma rect_length: "rect h w g \<Longrightarrow> length g = h"
  by (simp add: rect_def)

lemma rect_height: "rect h w g \<Longrightarrow> height g = h"
  by (simp add: rect_def height_def)

lemma rect_row: "rect h w g \<Longrightarrow> y < h \<Longrightarrow> length (g ! y) = w"
  by (auto simp: rect_def list_all_length)

lemma rect_width: "rect h w g \<Longrightarrow> 0 < h \<Longrightarrow> width g = w"
  by (cases g) (auto simp: rect_def width_def)

lemma rect_map: "rect h w g \<Longrightarrow> (\<And>r. length (f r) = length r) \<Longrightarrow> rect h w (map f g)"
  by (auto simp: rect_def list_all_length)

lemma rect_transpose: "rect h w g \<Longrightarrow> 0 < h \<Longrightarrow> rect w h (transpose_grid g)"
  by (rule rectI) (simp_all add: transpose_grid_def rect_width rect_height)

lemma nth_transpose:
  "rect h w g \<Longrightarrow> y < h \<Longrightarrow> x < w \<Longrightarrow> transpose_grid g ! x ! y = g ! y ! x"
  by (simp add: transpose_grid_def rect_width rect_height)

lemma grid_eqI:
  assumes "rect h w a" "rect h w b" "\<And>y x. y < h \<Longrightarrow> x < w \<Longrightarrow> a ! y ! x = b ! y ! x"
  shows "a = b"
proof (rule nth_equalityI)
  show "length a = length b" using assms by (simp add: rect_length)
next
  fix y assume "y < length a"
  then have y: "y < h" using assms by (simp add: rect_length)
  show "a ! y = b ! y"
    by (rule nth_equalityI) (use y assms in \<open>simp_all add: rect_row\<close>)
qed

lemma transpose_transpose:
  assumes "rect h w g" "0 < h" "0 < w" shows "transpose_grid (transpose_grid g) = g"
proof (rule grid_eqI [OF _ assms(1)])
  show "rect h w (transpose_grid (transpose_grid g))"
    using assms by (simp add: rect_transpose)
next
  fix y x assume "y < h" "x < w"
  then show "transpose_grid (transpose_grid g) ! y ! x = g ! y ! x"
    using assms by (simp add: nth_transpose [of w h] rect_transpose nth_transpose [of h w])
qed

lemma rect_fft2: "rect h w g \<Longrightarrow> 0 < h \<Longrightarrow> 0 < w \<Longrightarrow> rect h w (fft2 g)"
  unfolding fft2_def by (intro rect_transpose rect_map) simp_all

lemma rect_ifft2: "rect h w g \<Longrightarrow> 0 < h \<Longrightarrow> 0 < w \<Longrightarrow> rect h w (ifft2 g)"
  unfolding ifft2_def by (intro rect_transpose rect_map) simp_all

subsection \<open>The two passes commute\<close>

lemma nth_col_pass:
  assumes "rect h w X" "0 < h" "k < h" "l < w" "\<And>r. length (F r) = length r"
  shows "transpose_grid (map F (transpose_grid X)) ! k ! l = F (transpose_grid X ! l) ! k"
proof -
  have "rect w h (map F (transpose_grid X))"
    using assms by (intro rect_map rect_transpose)
  then show ?thesis
    using assms rect_length [OF rect_transpose [OF assms(1,2)]]
    by (simp add: nth_transpose [of w h])
qed

lemma nth_col_fft:
  assumes "rect h w X" "0 < h" "k < h" "l < w"
  shows "transpose_grid (map fft (transpose_grid X)) ! k ! l
       = (\<Sum>m<h. X ! m ! l * twiddle h (- (int k * int m)))"
proof -
  have len: "length (transpose_grid X ! l) = h"
    using assms by (simp add: rect_row [OF rect_transpose])
  have "fft (transpose_grid X ! l) ! k
      = (\<Sum>m<h. transpose_grid X ! l ! m * twiddle h (- (int k * int m)))"
    using assms len by (simp add: nth_fft)
  also have "\<dots> = (\<Sum>m<h. X ! m ! l * twiddle h (- (int k * int m)))"
    using assms by (intro sum.cong refl) (simp add: nth_transpose [of h w])
  finally show ?thesis
    using assms by (simp add: nth_col_pass [of h w])
qed

lemma col_fft_row_ifft:
  assumes "rect h w X" "0 < h" "0 < w"
  shows "map ifft (transpose_grid (map fft (transpose_grid X)))
       = transpose_grid (map fft (transpose_grid (map ifft X)))"
proof (rule grid_eqI [of h w])
  show "rect h w (map ifft (transpose_grid (map fft (transpose_grid X))))"
    using assms by (intro rect_map rect_transpose) simp_all
  show "rect h w (transpose_grid (map fft (transpose_grid (map ifft X))))"
    using assms by (intro rect_map rect_transpose) simp_all
next
  fix y x assume yx: "y < h" "x < w"
  let ?C = "transpose_grid (map fft (transpose_grid X))"
  have rC: "rect h w ?C" using assms by (intro rect_map rect_transpose) simp_all
  have rI: "rect h w (map ifft X)" using assms by (intro rect_map) simp_all
  have "map ifft ?C ! y ! x = ifft (?C ! y) ! x"
    using yx rC by (simp add: rect_length)
  also have "\<dots> = (\<Sum>l<w. ?C ! y ! l * twiddle w (int l * int x)) / of_nat w"
    using yx rC by (simp add: nth_ifft rect_row)
  also have "(\<Sum>l<w. ?C ! y ! l * twiddle w (int l * int x))
      = (\<Sum>l<w. \<Sum>m<h. X ! m ! l * twiddle h (- (int y * int m)) * twiddle w (int l * int x))"
    using assms yx by (intro sum.cong refl) (simp add: nth_col_fft [of h w] sum_distrib_right)
  also have "\<dots> = (\<Sum>m<h. \<Sum>l<w. X ! m ! l * twiddle h (- (int y * int m)) * twiddle w (int l * int x))"
    by (rule sum.swap)
  also have "\<dots> / of_nat w
      = (\<Sum>m<h. ((\<Sum>l<w. X ! m ! l * twiddle w (int l * int x)) / of_nat w)
            * twiddle h (- (int y * int m)))"
  proof -
    have "(\<Sum>l<w. X ! m ! l * twiddle h (- (int y * int m)) * twiddle w (int l * int x))
        = (\<Sum>l<w. X ! m ! l * twiddle w (int l * int x)) * twiddle h (- (int y * int m))" for m
      unfolding sum_distrib_right by (intro sum.cong refl) (simp add: mult_ac)
    then show ?thesis
      by (simp only: sum_divide_distrib [of _ "{..<h}"] times_divide_eq_left)
  qed
  also have "\<dots> = (\<Sum>m<h. map ifft X ! m ! x * twiddle h (- (int y * int m)))"
    using assms yx by (intro sum.cong refl) (simp add: rect_length nth_ifft rect_row)
  also have "\<dots> = transpose_grid (map fft (transpose_grid (map ifft X))) ! y ! x"
    using assms yx rI by (simp add: nth_col_fft [of h w])
  finally show "map ifft ?C ! y ! x
      = transpose_grid (map fft (transpose_grid (map ifft X))) ! y ! x" .
qed

lemma ifft2_fft2:
  assumes "rect h w g" "0 < h" "0 < w"
  shows "ifft2 (fft2 g) = g"
proof -
  have rF: "rect h w (map fft g)" using assms by (intro rect_map) simp_all
  have rT: "rect w h (map fft (transpose_grid g))"
    using assms by (intro rect_map rect_transpose) simp_all
  have "map ifft (fft2 g) = transpose_grid (map fft (transpose_grid (map ifft (map fft g))))"
    unfolding fft2_def using rF assms(2,3) by (rule col_fft_row_ifft)
  also have "map ifft (map fft g) = g"
    by (simp add: ifft_fft comp_def)
  finally have "ifft2 (fft2 g)
      = transpose_grid (map ifft (transpose_grid (transpose_grid (map fft (transpose_grid g)))))"
    by (simp add: ifft2_def)
  also have "\<dots> = transpose_grid (map ifft (map fft (transpose_grid g)))"
    using rT assms by (simp add: transpose_transpose [of w h])
  also have "\<dots> = g"
    using assms by (simp add: ifft_fft comp_def transpose_transpose [of h w])
  finally show ?thesis .
qed

subsection \<open>Centre shift\<close>

lemma length_roll [simp]: "length (roll s xs) = length xs"
  by (simp add: roll_def)

lemma roll_map: "roll s (map f xs) = map f (roll s xs)"
  by (simp add: roll_def rotate_map)

lemma roll_back: "roll (- s) (roll s xs) = xs"
proof (cases "xs = []")
  case True
  then show ?thesis by (simp add: roll_def)
next
  case False
  let ?n = "int (length xs)"
  have pos: "0 < ?n" using False by simp
  have "(nat (s mod ?n) + nat ((- s) mod ?n)) mod length xs = 0"
  proof -
    have "int (nat (s mod ?n) + nat ((- s) mod ?n)) = s mod ?n + (- s) mod ?n"
      using pos by simp
    moreover have "(s mod ?n + (- s) mod ?n) mod ?n = 0"
      by (metis add.right_inverse mod_add_eq mod_0)
    ultimately have "int ((nat (s mod ?n) + nat ((- s) mod ?n)) mod length xs) = 0"
      by (simp add: zmod_int)
    then show ?thesis by simp
  qed
  then show ?thesis
    by (simp add: roll_def rotate_rotate rotate_id)
qed

lemma nth_roll:
  assumes "j < length xs"
  shows "roll s xs ! j = xs ! nat ((int j - s) mod int (length xs))"
proof -
  let ?n = "int (length xs)"
  have pos: "0 < ?n" using assms by auto
  have "int ((nat ((- s) mod ?n) + j) mod length xs) = ((- s) mod ?n + int j) mod ?n"
    using pos by (simp add: zmod_int)
  also have "\<dots> = (- s + int j) mod ?n"
    by (rule mod_add_left_eq)
  also have "\<dots> = (int j - s) mod ?n"
    by (simp add: algebra_simps)
  finally have "(nat ((- s) mod ?n) + j) mod length xs = nat ((int j - s) mod ?n)"
    by linarith
  then show ?thesis using assms by (simp add: roll_def nth_rotate)
qed

lemma rect_roll_rows: "rect h w g \<Longrightarrow> rect h w (roll s g)"
  by (auto simp: rect_def roll_def list_all_iff)

lemma rect_fftshift: "rect h w g \<Longrightarrow> rect h w (fftshift g)"
  unfolding fftshift_def by (intro rect_roll_rows rect_map) simp_all

lemma rect_ifftshift: "rect h w g \<Longrightarrow> rect h w (ifftshift g)"
  unfolding ifftshift_def by (intro rect_roll_rows rect_map) simp_all

lemma ifftshift_fftshift:
  assumes "rect h w g" "0 < h"
  shows "ifftshift (fftshift g) = g"
proof -
  have hw: "height (fftshift g) = h" "width (fftshift g) = w" "height g = h" "width g = w"
    using rect_height [OF rect_fftshift [OF assms(1)]] rect_width [OF rect_fftshift [OF assms(1)]]
      rect_height [OF assms(1)] rect_width [OF assms(1)] assms(2) by simp_all
  have "ifftshift (fftshift g)
      = roll (- int (h div 2)) (roll (int (h div 2))
          (map (roll (- int (w div 2))) (map (roll (int (w div 2))) g)))"
    unfolding ifftshift_def hw unfolding fftshift_def hw by (simp only: roll_map)
  also have "\<dots> = g"
    by (simp add: roll_back comp_def)
  finally show ?thesis .
qed

lemma nth_fftshift:
  assumes "rect h w g" "y < h" "x < w"
  shows "fftshift g ! y ! x
       = g ! nat ((int y - int (h div 2)) mod int h) ! nat ((int x - int (w div 2)) mod int w)"
proof -
  let ?y = "nat ((int y - int (h div 2)) mod int h)"
  have hw: "height g = h" "width g = w" "length g = h"
    using assms by (simp_all add: rect_height rect_width rect_length)
  have y': "?y < h" using assms by (simp add: nat_less_iff)
  have "fftshift g ! y = map (roll (int (w div 2))) g ! ?y"
    unfolding fftshift_def hw using assms by (simp add: nth_roll hw)
  also have "\<dots> = roll (int (w div 2)) (g ! ?y)"
    using y' by (simp add: hw)
  finally show ?thesis
    using assms y' by (simp add: nth_roll rect_row [OF assms(1)])
qed

subsection \<open>Mask application and the round trip\<close>

lemma rect_apply_mask: "rect h w f \<Longrightarrow> rect h w m \<Longrightarrow> rect h w (apply_mask f m)"
  by (rule rectI) (simp_all add: apply_mask_def rect_length rect_row)

lemma nth_apply_mask:
  "rect h w f \<Longrightarrow> rect h w m \<Longrightarrow> y < h \<Longrightarrow> x < w \<Longrightarrow>
   apply_mask f m ! y ! x = f ! y ! x * complex_of_real (m ! y ! x)"
  by (simp add: apply_mask_def rect_length rect_row)

lemma rect_forward: "rect h w x \<Longrightarrow> 0 < h \<Longrightarrow> 0 < w \<Longrightarrow> rect h w (forward x)"
  unfolding forward_def by (intro rect_fftshift rect_fft2 rect_map) simp_all

lemma rect_inverse_transform:
  "rect h w s \<Longrightarrow> 0 < h \<Longrightarrow> 0 < w \<Longrightarrow> rect h w (inverse_transform s)"
  unfolding inverse_transform_def by (intro rect_map rect_ifft2 rect_ifftshift) simp_all

lemma inverse_forward:
  assumes "rect h w x" "0 < h" "0 < w"
  shows "inverse_transform (forward x) = x"
proof -
  let ?c = "map (map complex_of_real) x"
  have rc: "rect h w ?c" using assms by (intro rect_map) simp_all
  have "ifft2 (ifftshift (fftshift (fft2 ?c))) = ?c"
    using rc assms by (simp add: ifftshift_fftshift [of h w] rect_fft2 ifft2_fft2 [of h w])
  then show ?thesis
    by (simp add: inverse_transform_def forward_def comp_def)
qed

section \<open>The line-band policy\<close>

subsection \<open>Masks of ones and constant channels\<close>

lemma rect_ones: "rect h w (ones h w)"
  by (simp add: rect_def ones_def list_all_length)

lemma nth_ones: "y < h \<Longrightarrow> x < w \<Longrightarrow> ones h w ! y ! x = 1"
  by (simp add: ones_def)

lemma rect_restore_center: "rect h w (restore_center h w pc m)"
  by (rule rectI) (simp_all add: restore_center_def)

lemma nth_restore_center:
  "y < h \<Longrightarrow> x < w \<Longrightarrow>
   restore_center h w pc m ! y ! x = (if center_mask h w pc y x then 1 else m ! y ! x)"
  by (simp add: restore_center_def)

lemma rect_lines_mask: "rect h w (lines_mask h w lw pc att)"
  by (simp add: lines_mask_def rect_restore_center)

lemma center_mask_dc: "center_mask h w pc (h div 2) (w div 2)"
  by (simp add: center_mask_def)

lemma lines_mask_dc:
  "0 < h \<Longrightarrow> 0 < w \<Longrightarrow> lines_mask h w lw pc att ! (h div 2) ! (w div 2) = 1"
  by (simp add: lines_mask_def nth_restore_center center_mask_dc)

lemma apply_mask_ones:
  assumes "rect h w f" shows "apply_mask f (ones h w) = f"
proof (rule grid_eqI [OF _ assms])
  show "rect h w (apply_mask f (ones h w))"
    using assms by (simp add: rect_apply_mask rect_ones)
next
  fix y x assume "y < h" "x < w"
  then show "apply_mask f (ones h w) ! y ! x = f ! y ! x"
    using assms by (simp add: nth_apply_mask [of h w] rect_ones nth_ones)
qed

lemma lines_mask_width_zero: "lines_mask h w 0 pc att = ones h w"
proof (rule grid_eqI [OF rect_lines_mask rect_ones])
  fix y x assume "y < h" "x < w"
  then show "lines_mask h w 0 pc att ! y ! x = ones h w ! y ! x"
    by (simp add: lines_mask_def nth_restore_center filter_rows_def filter_cols_def nth_ones)
qed

lemma twiddle_sum_neg:
  assumes "k < n"
  shows "(\<Sum>m<n. twiddle n (- (int k * int m))) = (if k = 0 then of_nat n else 0)"
proof -
  have pos: "0 < n" using assms by simp
  have "(\<Sum>m<n. twiddle n (- (int k * int m))) = (\<Sum>m<n. twiddle n (int m * (- int k)))"
    by (intro sum.cong refl) (simp add: mult.commute)
  also have "\<dots> = (if int n dvd - int k then of_nat n else 0)"
    by (rule twiddle_sum [OF pos])
  also have "int n dvd - int k \<longleftrightarrow> k = 0"
    using dvd_diff_small [of 0 n k] assms by simp
  finally show ?thesis .
qed

lemma nth_fft_replicate:
  assumes "l < n"
  shows "fft (replicate n c) ! l = (if l = 0 then of_nat n * c else 0)"
proof -
  have "fft (replicate n c) ! l = (\<Sum>m<n. c * twiddle n (- (int l * int m)))"
    using assms by (simp add: nth_fft)
  also have "\<dots> = c * (\<Sum>m<n. twiddle n (- (int l * int m)))"
    by (simp add: sum_distrib_left)
  finally show ?thesis
    using assms by (simp add: twiddle_sum_neg)
qed

lemma nth_fft2_const:
  assumes "0 < h" "0 < w" "k < h" "l < w"
  shows "fft2 (replicate h (replicate w c)) ! k ! l
       = (if k = 0 \<and> l = 0 then of_nat h * (of_nat w * c) else 0)"
proof -
  let ?X = "map fft (replicate h (replicate w c))"
  have rX: "rect h w ?X" by (rule rectI) simp_all
  have "fft2 (replicate h (replicate w c)) ! k ! l
      = (\<Sum>m<h. ?X ! m ! l * twiddle h (- (int k * int m)))"
    unfolding fft2_def using rX assms(1,3,4) by (rule nth_col_fft)
  also have "\<dots> = (\<Sum>m<h. (if l = 0 then of_nat w * c else 0) * twiddle h (- (int k * int m)))"
    using assms by (intro sum.cong refl) (simp add: nth_fft_replicate)
  also have "\<dots> = (if l = 0 then of_nat w * c else 0) * (\<Sum>m<h. twiddle h (- (int k * int m)))"
    by (simp add: sum_distrib_left)
  finally show ?thesis
    using assms by (simp add: twiddle_sum_neg)
qed

lemma shift_index_zero:
  assumes "y < h"
  shows "nat ((int y - int (h div 2)) mod int h) = 0 \<longleftrightarrow> y = h div 2"
proof -
  have pos: "0 < int h" using assms by simp
  have "(int y - int (h div 2)) mod int h = 0 \<longleftrightarrow> int h dvd (int y - int (h div 2))"
    by (simp add: dvd_eq_mod_eq_0)
  also have "\<dots> \<longleftrightarrow> y = h div 2"
    using assms by (intro dvd_diff_small) simp_all
  finally have "(int y - int (h div 2)) mod int h = 0 \<longleftrightarrow> y = h div 2" .
  moreover have "0 \<le> (int y - int (h div 2)) mod int h"
    using pos by simp
  ultimately show ?thesis by auto
qed

lemma forward_const:
  assumes "0 < h" "0 < w" "y < h" "x < w"
  shows "forward (replicate h (replicate w c)) ! y ! x
       = (if y = h div 2 \<and> x = w div 2 then of_nat h * (of_nat w * complex_of_real c) else 0)"
proof -
  let ?g = "replicate h (replicate w (complex_of_real c))"
  have g: "map (map complex_of_real) (replicate h (replicate w c)) = ?g" by simp
  have r: "rect h w (fft2 ?g)"
    using assms by (intro rect_fft2 rectI) simp_all
  let ?y = "nat ((int y - int (h div 2)) mod int h)"
  let ?x = "nat ((int x - int (w div 2)) mod int w)"
  have b: "?y < h" "?x < w" using assms by (simp_all add: nat_less_iff)
  have "forward (replicate h (replicate w c)) ! y ! x = fft2 ?g ! ?y ! ?x"
    unfolding forward_def g using r assms(3,4) by (rule nth_fftshift)
  also have "\<dots> = (if ?y = 0 \<and> ?x = 0 then of_nat h * (of_nat w * complex_of_real c) else 0)"
    using assms(1,2) b by (rule nth_fft2_const)
  finally show ?thesis
    using assms by (simp only: shift_index_zero)
qed

lemma apply_mask_const:
  assumes "0 < h" "0 < w" "rect h w m" "m ! (h div 2) ! (w div 2) = 1"
  shows "apply_mask (forward (replicate h (replicate w c))) m
       = forward (replicate h (replicate w c))"
proof -
  have rx: "rect h w (replicate h (replicate w c))" by (rule rectI) simp_all
  have rf: "rect h w (forward (replicate h (replicate w c)))"
    using rx assms by (simp add: rect_forward)
  show ?thesis
  proof (rule grid_eqI [OF _ rf])
    show "rect h w (apply_mask (forward (replicate h (replicate w c))) m)"
      using rf assms by (simp add: rect_apply_mask)
  next
    fix y x assume "y < h" "x < w"
    then show "apply_mask (forward (replicate h (replicate w c))) m ! y ! x
        = forward (replicate h (replicate w c)) ! y ! x"
      using assms rf by (simp add: nth_apply_mask [of h w] forward_const)
  qed
qed

lemma lines_filter_const:
  assumes "0 < h" "0 < w"
  shows "fft_filter_channel_lines (replicate h (replicate w c)) lw pc att
       = Inr (replicate h (replicate w c))"
proof -
  have rx: "rect h w (replicate h (replicate w c))" by (rule rectI) simp_all
  have hw: "height (replicate h (replicate w c)) = h" "width (replicate h (replicate w c)) = w"
    using rx assms by (simp_all add: rect_height rect_width)
  show ?thesis
    unfolding fft_filter_channel_lines_def Let_def hw
    using assms rx
    by (simp add: apply_mask_const rect_lines_mask lines_mask_dc inverse_forward [of h w])
qed

text \<open>
  C7. The line policy with \<open>line_width = 2\<close>, \<open>attenuation = 0.99\<close> and
  \<open>protect_center = 10\<close> returns the 64 by 64 grid of constant value 100 unchanged: the
  spectrum of a constant grid vanishes off the DC bin, and the mask is 1 there. The
  equality is exact in real and complex arithmetic.
\<close>

theorem constant_image_lines_policy:
  "fft_filter_channel_lines (replicate 64 (replicate 64 100)) 2 10 (99 / 100)
     = Inr (replicate 64 (replicate 64 100))"
  by (rule lines_filter_const) simp_all

text \<open>
  C5. For every real grid of h rows and w columns, the forward transform followed by
  the inverse transform gives the grid back, with no mask and with the mask of ones;
  the line filter with \<open>line_width = 0\<close>, whose mask is the mask of ones, returns its
  input. The equality is exact in real and complex arithmetic.
\<close>

theorem round_trip:
  assumes "rect h w x" "0 < h" "0 < w"
  shows "inverse_transform (forward x) = x
       \<and> inverse_transform (apply_mask (forward x) (ones h w)) = x
       \<and> fft_filter_channel_lines x 0 pc att = Inr x"
proof -
  have hw: "height x = h" "width x = w"
    using assms by (simp_all add: rect_height rect_width)
  have rf: "rect h w (forward x)" using assms by (rule rect_forward)
  show ?thesis
    unfolding fft_filter_channel_lines_def Let_def hw
    using assms by (simp add: inverse_forward [of h w] apply_mask_ones [OF rf] lines_mask_width_zero)
qed

theorem round_trip_witness:
  "rect 2 2 [[1, 2], [3, 4 :: real]] \<and> (0::nat) < 2
   \<and> inverse_transform (forward [[1, 2], [3, 4]]) = [[1, 2], [3, 4]]
   \<and> inverse_transform (apply_mask (forward [[1, 2], [3, 4]]) (ones 2 2)) = [[1, 2], [3, 4]]
   \<and> fft_filter_channel_lines [[1, 2], [3, 4]] 0 10 (99 / 100) = Inr [[1, 2], [3, 4]]"
  using round_trip [of 2 2 "[[1, 2], [3, 4]]" 10 "99 / 100"] by (simp add: rect_def)

subsection \<open>The mask stays in the unit interval\<close>

lemma unit_gridI:
  "(\<And>y x. y < length g \<Longrightarrow> x < length (g ! y) \<Longrightarrow> 0 \<le> g ! y ! x \<and> g ! y ! x \<le> 1) \<Longrightarrow> unit_grid g"
  by (simp add: unit_grid_def list_all_length)

lemma unit_gridD:
  "unit_grid g \<Longrightarrow> y < length g \<Longrightarrow> x < length (g ! y) \<Longrightarrow> 0 \<le> g ! y ! x \<and> g ! y ! x \<le> 1"
  by (simp add: unit_grid_def list_all_length)

lemma unit_ones: "unit_grid (ones h w)"
  by (rule unit_gridI) (simp add: ones_def)

lemma unit_times: "0 \<le> v \<and> v \<le> 1 \<Longrightarrow> 0 \<le> f \<Longrightarrow> f \<le> 1 \<Longrightarrow> 0 \<le> v * f \<and> v * f \<le> (1::real)"
  by (simp add: mult_le_one)

lemma unit_scale_row:
  assumes "unit_grid m" "0 \<le> f" "f \<le> 1"
  shows "unit_grid (scale_row m y f)"
proof (rule unit_gridI)
  fix ya x assume b: "ya < length (scale_row m y f)" "x < length (scale_row m y f ! ya)"
  then have ya: "ya < length m" by (simp add: scale_row_def)
  show "0 \<le> scale_row m y f ! ya ! x \<and> scale_row m y f ! ya ! x \<le> 1"
  proof (cases "ya = y")
    case True
    then have x: "x < length (m ! y)" using b ya by (simp add: scale_row_def)
    have "0 \<le> m ! y ! x \<and> m ! y ! x \<le> 1"
      using assms(1) ya x True by (intro unit_gridD) simp_all
    then have "0 \<le> m ! y ! x * f \<and> m ! y ! x * f \<le> 1"
      using assms(2,3) by (rule unit_times)
    then show ?thesis using True ya x by (simp add: scale_row_def)
  next
    case False
    then show ?thesis
      using b ya unit_gridD [OF assms(1), of ya x] by (simp add: scale_row_def)
  qed
qed

lemma unit_scale_col:
  assumes "unit_grid m" "0 \<le> f" "f \<le> 1"
  shows "unit_grid (scale_col m x f)"
proof (rule unit_gridI)
  fix y xa assume b: "y < length (scale_col m x f)" "xa < length (scale_col m x f ! y)"
  then have y: "y < length m" and xa: "xa < length (m ! y)" by (simp_all add: scale_col_def)
  show "0 \<le> scale_col m x f ! y ! xa \<and> scale_col m x f ! y ! xa \<le> 1"
  proof (cases "xa = x")
    case True
    have "0 \<le> m ! y ! x \<and> m ! y ! x \<le> 1"
      using assms(1) y xa True by (intro unit_gridD) simp_all
    then have "0 \<le> m ! y ! x * f \<and> m ! y ! x * f \<le> 1"
      using assms(2,3) by (rule unit_times)
    then show ?thesis using True y xa by (simp add: scale_col_def)
  next
    case False
    then show ?thesis
      using y xa unit_gridD [OF assms(1), of y xa] by (simp add: scale_col_def)
  qed
qed

lemma rect_scale_row:
  assumes "rect h w m" shows "rect h w (scale_row m y f)"
proof (rule rectI)
  show "length (scale_row m y f) = h"
    using assms by (simp add: scale_row_def rect_length)
next
  fix ya assume ya: "ya < h"
  show "length (scale_row m y f ! ya) = w"
  proof (cases "ya = y")
    case True
    then show ?thesis using ya assms by (simp add: scale_row_def rect_length rect_row)
  next
    case False
    then show ?thesis using ya assms by (simp add: scale_row_def rect_row)
  qed
qed

lemma rect_scale_col: "rect h w m \<Longrightarrow> rect h w (scale_col m x f)"
  by (auto simp: rect_def scale_col_def list_all_length)

lemma falloff_bounds:
  assumes "0 < lw" "lw < d"
  shows "0 \<le> falloff lw d \<and> falloff lw d \<le> 1"
proof (cases "d < lw * 2")
  case True
  have "0 \<le> real_of_int (lw * 2 - d)" "real_of_int (lw * 2 - d) \<le> real_of_int lw"
    using True assms by simp_all
  then show ?thesis
    using True assms(1) by (simp add: falloff_def divide_le_eq del: of_int_diff of_int_mult)
next
  case False
  then show ?thesis by (simp add: falloff_def)
qed

lemma reduction_bounds:
  assumes "0 < lw" "0 \<le> att" "att \<le> 1"
  shows "0 \<le> reduction lw att d \<and> reduction lw att d \<le> 1"
proof (cases "d \<le> lw")
  case True
  then show ?thesis using assms by (simp add: reduction_def)
next
  case False
  then have "0 \<le> falloff lw d \<and> falloff lw d \<le> 1"
    using assms(1) by (intro falloff_bounds) simp_all
  then have "0 \<le> att * falloff lw d \<and> att * falloff lw d \<le> 1"
    using assms(2,3) by (simp add: mult_le_one)
  then show ?thesis using False by (simp add: reduction_def)
qed

lemma fold_invariant: "P s \<Longrightarrow> (\<And>x s. P s \<Longrightarrow> P (f x s)) \<Longrightarrow> P (fold f xs s)"
  by (induction xs arbitrary: s) simp_all

lemma filter_rows_inv:
  assumes "rect h w m \<and> unit_grid m" "0 \<le> att" "att \<le> 1"
  shows "rect h w (filter_rows h lw att m) \<and> unit_grid (filter_rows h lw att m)"
proof (cases "0 < lw")
  case True
  have step: "rect h w (if 0 \<le> int (h div 2) + dy \<and> int (h div 2) + dy < int h
                then scale_row s (nat (int (h div 2) + dy)) (1 - reduction lw att \<bar>dy\<bar>) else s)
           \<and> unit_grid (if 0 \<le> int (h div 2) + dy \<and> int (h div 2) + dy < int h
                then scale_row s (nat (int (h div 2) + dy)) (1 - reduction lw att \<bar>dy\<bar>) else s)"
    if "rect h w s \<and> unit_grid s" for dy s
    using that reduction_bounds [OF True assms(2,3), of "\<bar>dy\<bar>"]
    by (simp add: rect_scale_row unit_scale_row)
  show ?thesis
    unfolding filter_rows_def Let_def using True
    by (simp only: if_True) (rule fold_invariant [where P = "\<lambda>s. rect h w s \<and> unit_grid s"], rule assms(1), rule step)
next
  case False
  then show ?thesis using assms by (simp add: filter_rows_def)
qed

lemma filter_cols_inv:
  assumes "rect h w m \<and> unit_grid m" "0 \<le> att" "att \<le> 1"
  shows "rect h w (filter_cols w lw att m) \<and> unit_grid (filter_cols w lw att m)"
proof (cases "0 < lw")
  case True
  have step: "rect h w (if 0 \<le> int (w div 2) + dx \<and> int (w div 2) + dx < int w
                then scale_col s (nat (int (w div 2) + dx)) (1 - reduction lw att \<bar>dx\<bar>) else s)
           \<and> unit_grid (if 0 \<le> int (w div 2) + dx \<and> int (w div 2) + dx < int w
                then scale_col s (nat (int (w div 2) + dx)) (1 - reduction lw att \<bar>dx\<bar>) else s)"
    if "rect h w s \<and> unit_grid s" for dx s
    using that reduction_bounds [OF True assms(2,3), of "\<bar>dx\<bar>"]
    by (simp add: rect_scale_col unit_scale_col)
  show ?thesis
    unfolding filter_cols_def Let_def using True
    by (simp only: if_True) (rule fold_invariant [where P = "\<lambda>s. rect h w s \<and> unit_grid s"], rule assms(1), rule step)
next
  case False
  then show ?thesis using assms by (simp add: filter_cols_def)
qed

lemma lines_mask_bounds:
  assumes "0 \<le> att" "att \<le> 1" "y < h" "x < w"
  shows "0 \<le> lines_mask h w lw pc att ! y ! x \<and> lines_mask h w lw pc att ! y ! x \<le> 1"
proof -
  let ?m = "filter_cols w lw att (filter_rows h lw att (ones h w))"
  have "rect h w (ones h w) \<and> unit_grid (ones h w)"
    by (simp add: rect_ones unit_ones)
  then have "rect h w (filter_rows h lw att (ones h w)) \<and> unit_grid (filter_rows h lw att (ones h w))"
    using assms(1,2) by (rule filter_rows_inv)
  then have m: "rect h w ?m \<and> unit_grid ?m"
    using assms(1,2) by (rule filter_cols_inv)
  have len: "y < length ?m" "x < length (?m ! y)"
    using assms(3,4) rect_length [OF conjunct1 [OF m]] rect_row [OF conjunct1 [OF m], of y]
    by simp_all
  have "0 \<le> ?m ! y ! x \<and> ?m ! y ! x \<le> 1"
    using conjunct2 [OF m] len by (rule unit_gridD)
  then show ?thesis
    using assms(3,4) by (simp add: lines_mask_def nth_restore_center)
qed

lemma lines_mask_in_disc:
  "y < h \<Longrightarrow> x < w \<Longrightarrow> center_mask h w pc y x \<Longrightarrow> lines_mask h w lw pc att ! y ! x = 1"
  by (simp add: lines_mask_def nth_restore_center)

subsection \<open>What the band loops leave in each bin\<close>

lemma nth_scale_row:
  assumes "rect h w m" "y < h" "x < w" "y' < h"
  shows "scale_row m y' f ! y ! x = m ! y ! x * (if y = y' then f else 1)"
  using assms by (auto simp: scale_row_def rect_length rect_row)

lemma nth_scale_col:
  assumes "rect h w m" "y < h" "x < w" "x' < w"
  shows "scale_col m x' f ! y ! x = m ! y ! x * (if x = x' then f else 1)"
  using assms by (auto simp: scale_col_def rect_length rect_row nth_list_update)

lemma rows_fold:
  assumes "rect h w m" "y < h" "x < w" "distinct L"
  shows "rect h w (fold (\<lambda>dy s. let y_idx = int (h div 2) + dy in
                          if 0 \<le> y_idx \<and> y_idx < int h
                          then scale_row s (nat y_idx) (g dy) else s) L m)
       \<and> fold (\<lambda>dy s. let y_idx = int (h div 2) + dy in
                          if 0 \<le> y_idx \<and> y_idx < int h
                          then scale_row s (nat y_idx) (g dy) else s) L m ! y ! x
         = m ! y ! x * (if int y - int (h div 2) \<in> set L then g (int y - int (h div 2)) else 1)"
  using assms(1,4)
proof (induction L arbitrary: m)
  case Nil
  then show ?case by simp
next
  case (Cons d L)
  let ?step = "\<lambda>dy s. let y_idx = int (h div 2) + dy in
                 if 0 \<le> y_idx \<and> y_idx < int h then scale_row s (nat y_idx) (g dy) else s"
  let ?m = "?step d m"
  have r: "rect h w ?m" using Cons.prems(1) by (simp add: Let_def rect_scale_row)
  have d: "distinct L" "d \<notin> set L" using Cons.prems(2) by simp_all
  have one: "?m ! y ! x = m ! y ! x * (if int y - int (h div 2) = d then g d else 1)"
  proof (cases "0 \<le> int (h div 2) + d \<and> int (h div 2) + d < int h")
    case True
    then have "nat (int (h div 2) + d) < h" by linarith
    moreover have "y = nat (int (h div 2) + d) \<longleftrightarrow> int y - int (h div 2) = d"
      using True by linarith
    ultimately show ?thesis
      using True Cons.prems(1) assms(2,3) by (simp add: Let_def nth_scale_row [of h w])
  next
    case False
    then have "int y - int (h div 2) \<noteq> d" using assms(2) by linarith
    then show ?thesis using False by (auto simp: Let_def)
  qed
  show ?case
    using Cons.IH [OF r d(1)] d(2) unfolding fold_Cons comp_apply one by auto
qed

lemma cols_fold:
  assumes "rect h w m" "y < h" "x < w" "distinct L"
  shows "rect h w (fold (\<lambda>dx s. let x_idx = int (w div 2) + dx in
                          if 0 \<le> x_idx \<and> x_idx < int w
                          then scale_col s (nat x_idx) (g dx) else s) L m)
       \<and> fold (\<lambda>dx s. let x_idx = int (w div 2) + dx in
                          if 0 \<le> x_idx \<and> x_idx < int w
                          then scale_col s (nat x_idx) (g dx) else s) L m ! y ! x
         = m ! y ! x * (if int x - int (w div 2) \<in> set L then g (int x - int (w div 2)) else 1)"
  using assms(1,4)
proof (induction L arbitrary: m)
  case Nil
  then show ?case by simp
next
  case (Cons d L)
  let ?step = "\<lambda>dx s. let x_idx = int (w div 2) + dx in
                 if 0 \<le> x_idx \<and> x_idx < int w then scale_col s (nat x_idx) (g dx) else s"
  let ?m = "?step d m"
  have r: "rect h w ?m" using Cons.prems(1) by (simp add: Let_def rect_scale_col)
  have d: "distinct L" "d \<notin> set L" using Cons.prems(2) by simp_all
  have one: "?m ! y ! x = m ! y ! x * (if int x - int (w div 2) = d then g d else 1)"
  proof (cases "0 \<le> int (w div 2) + d \<and> int (w div 2) + d < int w")
    case True
    then have "nat (int (w div 2) + d) < w" by linarith
    moreover have "x = nat (int (w div 2) + d) \<longleftrightarrow> int x - int (w div 2) = d"
      using True by linarith
    ultimately show ?thesis
      using True Cons.prems(1) assms(2,3) by (simp add: Let_def nth_scale_col [of h w])
  next
    case False
    then have "int x - int (w div 2) \<noteq> d" using assms(3) by linarith
    then show ?thesis using False by (auto simp: Let_def)
  qed
  show ?case
    using Cons.IH [OF r d(1)] d(2) unfolding fold_Cons comp_apply one by auto
qed

lemma reduction_far: "0 < lw \<Longrightarrow> 2 * lw \<le> d \<Longrightarrow> reduction lw att d = 0"
  by (simp add: reduction_def falloff_def)

lemma nth_filter_rows:
  assumes "0 < lw" "rect h w m" "y < h" "x < w"
  shows "filter_rows h lw att m ! y ! x
       = m ! y ! x * (1 - reduction lw att \<bar>int y - int (h div 2)\<bar>)"
proof -
  let ?d = "int y - int (h div 2)"
  have "filter_rows h lw att m ! y ! x
      = m ! y ! x * (if ?d \<in> set [- lw * 2 .. lw * 2] then 1 - reduction lw att \<bar>?d\<bar> else 1)"
    unfolding filter_rows_def using assms(1)
      rows_fold [OF assms(2,3,4), of "[- lw * 2 .. lw * 2]" "\<lambda>dy. 1 - reduction lw att \<bar>dy\<bar>"]
    by simp
  moreover have "reduction lw att \<bar>?d\<bar> = 0" if "?d \<notin> set [- lw * 2 .. lw * 2]"
    using that assms(1) by (intro reduction_far) auto
  ultimately show ?thesis by auto
qed

lemma nth_filter_cols:
  assumes "0 < lw" "rect h w m" "y < h" "x < w"
  shows "filter_cols w lw att m ! y ! x
       = m ! y ! x * (1 - reduction lw att \<bar>int x - int (w div 2)\<bar>)"
proof -
  let ?d = "int x - int (w div 2)"
  have "filter_cols w lw att m ! y ! x
      = m ! y ! x * (if ?d \<in> set [- lw * 2 .. lw * 2] then 1 - reduction lw att \<bar>?d\<bar> else 1)"
    unfolding filter_cols_def using assms(1)
      cols_fold [OF assms(2,3,4), of "[- lw * 2 .. lw * 2]" "\<lambda>dx. 1 - reduction lw att \<bar>dx\<bar>"]
    by simp
  moreover have "reduction lw att \<bar>?d\<bar> = 0" if "?d \<notin> set [- lw * 2 .. lw * 2]"
    using that assms(1) by (intro reduction_far) auto
  ultimately show ?thesis by auto
qed

lemma nth_lines_mask:
  assumes "0 < lw" "y < h" "x < w"
  shows "lines_mask h w lw pc att ! y ! x
       = (if center_mask h w pc y x then 1
          else (1 - reduction lw att \<bar>int y - int (h div 2)\<bar>)
             * (1 - reduction lw att \<bar>int x - int (w div 2)\<bar>))"
proof -
  have r: "rect h w (filter_rows h lw att (ones h w))"
    using assms(1)
      conjunct1 [OF rows_fold [OF rect_ones assms(2,3) distinct_upto,
        where ?g = "\<lambda>dy. 1 - reduction lw att \<bar>dy\<bar>"]]
    by (simp add: filter_rows_def)
  show ?thesis
    using assms
    by (simp add: lines_mask_def nth_restore_center nth_filter_cols [OF assms(1) r]
        nth_filter_rows [OF assms(1) rect_ones] nth_ones)
qed

subsection \<open>The reduction profile\<close>

lemma reduction_values:
  assumes "0 < lw" and "0 < att" and "att \<le> 1"
  shows "(\<forall>d. 0 \<le> d \<and> d \<le> lw \<longrightarrow> reduction lw att d = att)
       \<and> (\<forall>d. lw < d \<and> d \<le> 2 * lw \<longrightarrow>
            reduction lw att d = att * real_of_int (2 * lw - d) / real_of_int lw)
       \<and> (\<forall>d e. lw \<le> d \<and> d < e \<and> e \<le> 2 * lw \<longrightarrow> reduction lw att e < reduction lw att d)
       \<and> reduction lw att (2 * lw) = 0
       \<and> (\<forall>d e. 0 \<le> d \<and> d \<le> e \<longrightarrow> reduction lw att e \<le> reduction lw att d)"
proof (intro conjI allI impI)
  fix d assume "0 \<le> d \<and> d \<le> lw"
  then show "reduction lw att d = att" by (simp add: reduction_def)
next
  fix d assume "lw < d \<and> d \<le> 2 * lw"
  then show "reduction lw att d = att * real_of_int (2 * lw - d) / real_of_int lw"
    by (auto simp: reduction_def falloff_def mult.commute)
next
  fix d e assume h: "lw \<le> d \<and> d < e \<and> e \<le> 2 * lw"
  have pos: "0 < real_of_int lw" using assms by simp
  have e: "reduction lw att e = att * real_of_int (2 * lw - e) / real_of_int lw"
    using h by (auto simp: reduction_def falloff_def mult.commute)
  have d: "reduction lw att d = att * real_of_int (2 * lw - d) / real_of_int lw"
    using h assms by (auto simp: reduction_def falloff_def mult.commute)
  have "att * real_of_int (2 * lw - e) < att * real_of_int (2 * lw - d)"
    using h assms by simp
  then show "reduction lw att e < reduction lw att d"
    unfolding e d using pos by (simp add: divide_strict_right_mono)
next
  show "reduction lw att (2 * lw) = 0"
    using assms by (simp add: reduction_def falloff_def)
next
  fix d e :: int assume h: "0 \<le> d \<and> d \<le> e"
  have pos: "0 < real_of_int lw" using assms by simp
  have form: "reduction lw att k = att * (if k \<le> lw then 1 else if k < 2 * lw
      then real_of_int (2 * lw - k) / real_of_int lw else 0)" for k
    by (simp add: reduction_def falloff_def mult.commute)
  have mono: "(if e \<le> lw then 1 else if e < 2 * lw
      then real_of_int (2 * lw - e) / real_of_int lw else 0)
    \<le> (if d \<le> lw then 1 else if d < 2 * lw
      then real_of_int (2 * lw - d) / real_of_int lw else (0::real))"
    using h pos by (auto simp: divide_le_eq le_divide_eq)
  show "reduction lw att e \<le> reduction lw att d"
    unfolding form using mono assms by (simp add: mult_left_mono)
qed

text \<open>
  C9. With \<open>line_width > 0\<close> and \<open>attenuation\<close> in (0,1], the row loop multiplies the row at
  offset dy from the centre row by \<open>1 - reduction |dy|\<close>, and the column loop does the same
  with the columns. The reduction at offset distance d is \<open>attenuation\<close> for d up to
  \<open>line_width\<close>, is \<open>attenuation * (2 * line_width - d) / line_width\<close> for d between
  \<open>line_width\<close> and \<open>2 * line_width\<close>, strictly decreases on that stretch down to 0 at
  \<open>2 * line_width\<close>, and never increases with distance.
\<close>

theorem reduction_profile:
  assumes "0 < lw" and "0 < att" and "att \<le> 1"
  shows "(\<forall>h w y x. y < h \<and> x < w \<longrightarrow>
            filter_rows h lw att (ones h w) ! y ! x
              = 1 - reduction lw att \<bar>int y - int (h div 2)\<bar>
          \<and> filter_cols w lw att (ones h w) ! y ! x
              = 1 - reduction lw att \<bar>int x - int (w div 2)\<bar>)
       \<and> (\<forall>d. 0 \<le> d \<and> d \<le> lw \<longrightarrow> reduction lw att d = att)
       \<and> (\<forall>d. lw < d \<and> d \<le> 2 * lw \<longrightarrow>
            reduction lw att d = att * real_of_int (2 * lw - d) / real_of_int lw)
       \<and> (\<forall>d e. lw \<le> d \<and> d < e \<and> e \<le> 2 * lw \<longrightarrow> reduction lw att e < reduction lw att d)
       \<and> reduction lw att (2 * lw) = 0
       \<and> (\<forall>d e. 0 \<le> d \<and> d \<le> e \<longrightarrow> reduction lw att e \<le> reduction lw att d)"
proof -
  have "filter_rows h lw att (ones h w) ! y ! x = 1 - reduction lw att \<bar>int y - int (h div 2)\<bar>
      \<and> filter_cols w lw att (ones h w) ! y ! x = 1 - reduction lw att \<bar>int x - int (w div 2)\<bar>"
    if "y < h" "x < w" for h w y x
    using that by (simp add: nth_filter_rows [OF assms(1) rect_ones]
        nth_filter_cols [OF assms(1) rect_ones] nth_ones)
  then show ?thesis using reduction_values [OF assms] by blast
qed

theorem reduction_profile_witness:
  "(0::int) < 2 \<and> (0::real) < 99 / 100 \<and> (99 / 100 :: real) \<le> 1
   \<and> filter_rows 8 2 (99 / 100) (ones 8 8) ! 1 ! 5
       = 1 - reduction 2 (99 / 100) \<bar>int 1 - int (8 div 2)\<bar>
   \<and> filter_cols 8 2 (99 / 100) (ones 8 8) ! 1 ! 5
       = 1 - reduction 2 (99 / 100) \<bar>int 5 - int (8 div 2)\<bar>
   \<and> reduction 2 (99 / 100) 1 = 99 / 100
   \<and> reduction 2 (99 / 100) 3 = 99 / 100 * real_of_int (2 * 2 - 3) / real_of_int 2
   \<and> reduction 2 (99 / 100) 4 < reduction 2 (99 / 100) 3
   \<and> reduction 2 (99 / 100) (2 * 2) = 0"
proof -
  note T = reduction_profile [of 2 "99 / 100", simplified]
  have "filter_rows 8 2 (99 / 100) (ones 8 8) ! 1 ! 5
       = 1 - reduction 2 (99 / 100) \<bar>int 1 - int (8 div 2)\<bar>
     \<and> filter_cols 8 2 (99 / 100) (ones 8 8) ! 1 ! 5
       = 1 - reduction 2 (99 / 100) \<bar>int 5 - int (8 div 2)\<bar>"
    using T [THEN conjunct1, rule_format, of 1 8 5 8] by simp
  then show ?thesis
    by (simp add: reduction_def falloff_def)
qed

section \<open>The peak-notch policy\<close>

subsection \<open>The notch loops never fail\<close>

lemma sqrt_le_int_iff:
  assumes "0 \<le> n"
  shows "sqrt (real_of_int n) \<le> real_of_int r \<longleftrightarrow> 0 \<le> r \<and> n \<le> r\<^sup>2"
proof (cases "0 \<le> r")
  case True
  have "real_of_int r = sqrt ((real_of_int r)\<^sup>2)" using True by simp
  then have "sqrt (real_of_int n) \<le> real_of_int r
      \<longleftrightarrow> sqrt (real_of_int n) \<le> sqrt ((real_of_int r)\<^sup>2)" by simp
  also have "\<dots> \<longleftrightarrow> real_of_int n \<le> (real_of_int r)\<^sup>2"
    by (rule real_sqrt_le_iff)
  also have "\<dots> \<longleftrightarrow> n \<le> r\<^sup>2"
    by (metis of_int_le_iff of_int_power)
  finally show ?thesis using True by simp
next
  case False
  have "0 \<le> sqrt (real_of_int n)" using assms by simp
  moreover have "real_of_int r < 0" using False by simp
  ultimately show ?thesis using False by linarith
qed

lemma notch_cell_eq:
  "notch_cell h w r p dy dx m = Inr (notch_update h w r p dy dx m)"
proof -
  let ?n = "dy\<^sup>2 + dx\<^sup>2"
  have n0: "0 \<le> ?n" by simp
  have le: "sqrt (real_of_int ?n) \<le> real_of_int r \<longleftrightarrow> 0 \<le> r \<and> ?n \<le> r\<^sup>2"
    by (rule sqrt_le_int_iff [OF n0])
  have fac: "notch_factor (sqrt (real_of_int ?n)) r = Inr (kernel r dy dx)"
    if "0 \<le> r" "?n \<le> r\<^sup>2"
  proof (cases "?n = 0")
    case True
    then show ?thesis using that by (simp add: notch_factor_def kernel_def)
  next
    case False
    then have pos: "0 < ?n" using n0 by linarith
    then have "r \<noteq> 0" using that by auto
    moreover have "(sqrt (real_of_int ?n) / real_of_int r)\<^sup>2 = real_of_int ?n / real_of_int (r\<^sup>2)"
      using n0 by (simp add: power_divide)
    ultimately show ?thesis
      using that pos by (simp add: notch_factor_def kernel_def del: of_int_add of_int_power)
  qed
  show ?thesis
    unfolding notch_cell_def notch_update_def Let_def le
    using fac by (auto simp del: of_int_add of_int_power)
qed

lemma foldE_pure: "(\<And>x s. f x s = Inr (g x s)) \<Longrightarrow> foldE f xs s = Inr (fold g xs s)"
  by (induction xs arbitrary: s) simp_all

lemma notch_peak_eq:
  "notch_peak h w r p m
     = Inr (fold (\<lambda>dy. fold (\<lambda>dx. notch_update h w r p dy dx) [- r .. r]) [- r .. r] m)"
  unfolding notch_peak_def
  by (intro foldE_pure) (simp add: foldE_pure notch_cell_eq)

lemma peaks_mask_eq:
  "peaks_mask h w mag tp r pc =
     (case threshold h w tp pc mag of
        Inl e \<Rightarrow> Inl e
      | Inr thr \<Rightarrow>
          Inr (fold (\<lambda>p. fold (\<lambda>dy. fold (\<lambda>dx. notch_update h w r p dy dx) [- r .. r]) [- r .. r])
                    (peak_coords h w (peaks h w pc mag thr)) (ones h w)))"
  unfolding peaks_mask_def
  by (simp add: foldE_pure notch_peak_eq split: sum.splits)

subsection \<open>What the notch loops leave in each bin\<close>

lemma rect_mul_at:
  assumes "rect h w m" shows "rect h w (mul_at m y x f)"
proof (rule rectI)
  show "length (mul_at m y x f) = h"
    using assms by (simp add: mul_at_def rect_length)
next
  fix ya assume ya: "ya < h"
  show "length (mul_at m y x f ! ya) = w"
  proof (cases "ya = y")
    case True
    then show ?thesis using ya assms by (simp add: mul_at_def rect_length rect_row)
  next
    case False
    then show ?thesis using ya assms by (simp add: mul_at_def rect_row)
  qed
qed

lemma nth_mul_at:
  "rect h w m \<Longrightarrow> y < h \<Longrightarrow> x < w \<Longrightarrow> y' < h \<Longrightarrow> x' < w \<Longrightarrow>
   mul_at m y' x' f ! y ! x = (if y = y' \<and> x = x' then m ! y ! x * f else m ! y ! x)"
  by (auto simp: mul_at_def rect_length rect_row nth_list_update)

lemma rect_notch_update: "rect h w m \<Longrightarrow> rect h w (notch_update h w r p dy dx m)"
  by (simp add: notch_update_def Let_def rect_mul_at)

lemma nth_notch_update:
  assumes "rect h w m" "y < h" "x < w"
  shows "notch_update h w r p dy dx m ! y ! x
       = m ! y ! x * (if int y = int (fst p) + dy \<and> int x = int (snd p) + dx
                      then kernel r dy dx else 1)"
proof (cases "0 \<le> r \<and> dy\<^sup>2 + dx\<^sup>2 \<le> r\<^sup>2")
  case False
  then have "kernel r dy dx = 1" by (auto simp: kernel_def)
  then show ?thesis using False by (auto simp: notch_update_def Let_def)
next
  case True
  show ?thesis
  proof (cases "0 \<le> int (fst p) + dy \<and> int (fst p) + dy < int h
              \<and> 0 \<le> int (snd p) + dx \<and> int (snd p) + dx < int w")
    case False
    then have "\<not> (int y = int (fst p) + dy \<and> int x = int (snd p) + dx)"
      using assms by auto
    then show ?thesis using False by (auto simp: notch_update_def Let_def)
  next
    case inr: True
    have "(y = nat (int (fst p) + dy) \<and> x = nat (int (snd p) + dx))
        \<longleftrightarrow> (int y = int (fst p) + dy \<and> int x = int (snd p) + dx)"
      using inr by auto
    then show ?thesis
      using True inr assms
      by (simp add: notch_update_def Let_def nth_mul_at [of h w] nat_less_iff)
  qed
qed

lemma fold_dx:
  assumes "rect h w m" "y < h" "x < w" "distinct L"
  shows "rect h w (fold (\<lambda>dx. notch_update h w r p dy dx) L m)
       \<and> fold (\<lambda>dx. notch_update h w r p dy dx) L m ! y ! x
         = m ! y ! x * (if int y = int (fst p) + dy \<and> int x - int (snd p) \<in> set L
                        then kernel r dy (int x - int (snd p)) else 1)"
  using assms
proof (induction L arbitrary: m)
  case Nil
  then show ?case by simp
next
  case (Cons d L)
  let ?m = "notch_update h w r p dy d m"
  have r: "rect h w ?m" using Cons.prems(1) by (rule rect_notch_update)
  have d: "distinct L" "d \<notin> set L" using Cons.prems(4) by simp_all
  have ih: "rect h w (fold (\<lambda>dx. notch_update h w r p dy dx) L ?m)
       \<and> fold (\<lambda>dx. notch_update h w r p dy dx) L ?m ! y ! x
         = ?m ! y ! x * (if int y = int (fst p) + dy \<and> int x - int (snd p) \<in> set L
                        then kernel r dy (int x - int (snd p)) else 1)"
    using Cons.IH [OF r Cons.prems(2,3) d(1)] .
  have step: "?m ! y ! x = m ! y ! x * (if int y = int (fst p) + dy \<and> int x = int (snd p) + d
                      then kernel r dy d else 1)"
    using Cons.prems(1,2,3) by (rule nth_notch_update)
  have eq: "int x = int (snd p) + d \<longleftrightarrow> int x - int (snd p) = d" by auto
  show ?case
    using ih d(2) unfolding step eq by auto
qed

lemma fold_dy:
  assumes "rect h w m" "y < h" "x < w" "distinct L" "distinct L'"
  shows "rect h w (fold (\<lambda>dy. fold (\<lambda>dx. notch_update h w r p dy dx) L') L m)
       \<and> fold (\<lambda>dy. fold (\<lambda>dx. notch_update h w r p dy dx) L') L m ! y ! x
         = m ! y ! x * (if int y - int (fst p) \<in> set L \<and> int x - int (snd p) \<in> set L'
                        then kernel r (int y - int (fst p)) (int x - int (snd p)) else 1)"
  using assms
proof (induction L arbitrary: m)
  case Nil
  then show ?case by simp
next
  case (Cons d L)
  let ?m = "fold (\<lambda>dx. notch_update h w r p d dx) L' m"
  have inner: "rect h w ?m
       \<and> ?m ! y ! x = m ! y ! x * (if int y = int (fst p) + d \<and> int x - int (snd p) \<in> set L'
                        then kernel r d (int x - int (snd p)) else 1)"
    using Cons.prems(1,2,3,5) by (rule fold_dx)
  have d: "distinct L" "d \<notin> set L" using Cons.prems(4) by simp_all
  have ih: "rect h w (fold (\<lambda>dy. fold (\<lambda>dx. notch_update h w r p dy dx) L') L ?m)
       \<and> fold (\<lambda>dy. fold (\<lambda>dx. notch_update h w r p dy dx) L') L ?m ! y ! x
         = ?m ! y ! x * (if int y - int (fst p) \<in> set L \<and> int x - int (snd p) \<in> set L'
                        then kernel r (int y - int (fst p)) (int x - int (snd p)) else 1)"
    using Cons.IH [OF conjunct1 [OF inner] Cons.prems(2,3) d(1) Cons.prems(5)] .
  have eq: "int y = int (fst p) + d \<longleftrightarrow> int y - int (fst p) = d" by auto
  show ?case
    using ih d(2) unfolding conjunct2 [OF inner] eq by auto
qed

lemma kernel_outside: "\<not> (- r \<le> a \<and> a \<le> r \<and> - r \<le> b \<and> b \<le> r) \<Longrightarrow> kernel r a b = 1"
proof (rule ccontr)
  assume out: "\<not> (- r \<le> a \<and> a \<le> r \<and> - r \<le> b \<and> b \<le> r)" and "kernel r a b \<noteq> 1"
  then have r: "0 \<le> r" and le: "a\<^sup>2 + b\<^sup>2 \<le> r\<^sup>2"
    by (auto simp: kernel_def split: if_splits)
  have "a\<^sup>2 \<le> r\<^sup>2" "b\<^sup>2 \<le> r\<^sup>2"
    using le zero_le_power2 [of a] zero_le_power2 [of b] by linarith+
  then have "\<bar>a\<bar> \<le> \<bar>r\<bar>" "\<bar>b\<bar> \<le> \<bar>r\<bar>"
    by (simp_all add: abs_le_square_iff)
  then show False using out r by auto
qed

lemma notch_peak_nth:
  assumes "rect h w m" "y < h" "x < w"
  shows "rect h w (fold (\<lambda>dy. fold (\<lambda>dx. notch_update h w r p dy dx) [- r .. r]) [- r .. r] m)
       \<and> fold (\<lambda>dy. fold (\<lambda>dx. notch_update h w r p dy dx) [- r .. r]) [- r .. r] m ! y ! x
         = m ! y ! x * kernel r (int y - int (fst p)) (int x - int (snd p))"
  using fold_dy [OF assms, of "[- r .. r]" "[- r .. r]" r p]
    kernel_outside [of r "int y - int (fst p)" "int x - int (snd p)"]
  by auto

lemma notch_all_nth:
  assumes "rect h w m" "y < h" "x < w"
  shows "rect h w (fold (\<lambda>p. fold (\<lambda>dy. fold (\<lambda>dx. notch_update h w r p dy dx) [- r .. r])
                                 [- r .. r]) ps m)
       \<and> fold (\<lambda>p. fold (\<lambda>dy. fold (\<lambda>dx. notch_update h w r p dy dx) [- r .. r])
                        [- r .. r]) ps m ! y ! x
         = m ! y ! x * prod_list (map (\<lambda>p. kernel r (int y - int (fst p)) (int x - int (snd p))) ps)"
  using assms(1)
proof (induction ps arbitrary: m)
  case Nil
  then show ?case by simp
next
  case (Cons p ps)
  let ?m = "fold (\<lambda>dy. fold (\<lambda>dx. notch_update h w r p dy dx) [- r .. r]) [- r .. r] m"
  have one: "rect h w ?m
      \<and> ?m ! y ! x = m ! y ! x * kernel r (int y - int (fst p)) (int x - int (snd p))"
    using Cons.prems assms(2,3) by (rule notch_peak_nth)
  show ?case
    using Cons.IH [OF conjunct1 [OF one]] conjunct2 [OF one] by (simp add: mult.assoc)
qed

subsection \<open>Threshold and peak list\<close>

lemma length_concat_grid:
  "length (concat (map (\<lambda>y. map (f y) [0..<w]) [0..<h])) = h * w"
  by (induction h) simp_all

lemma percentile_ok:
  "0 \<le> q \<Longrightarrow> q \<le> 100 \<Longrightarrow> a \<noteq> [] \<Longrightarrow> \<exists>v. percentile a q = Inr v"
  by (simp add: percentile_def Let_def)

lemma percentile_not_div: "percentile a q \<noteq> Inl DivisionByZero"
  by (simp add: percentile_def Let_def)

lemma threshold_ok:
  assumes "0 < h" "0 < w" "0 \<le> tp" "tp \<le> 100"
  shows "\<exists>thr. threshold h w tp pc mag = Inr thr"
proof -
  have "length (concat (magnitude_for_threshold h w pc mag)) = h * w"
    unfolding magnitude_for_threshold_def by (rule length_concat_grid)
  then have "concat (magnitude_for_threshold h w pc mag) \<noteq> []"
    using assms by (metis length_0_conv mult_is_0 less_numeral_extra(3))
  then show ?thesis
    unfolding threshold_def using assms(3,4) by (intro percentile_ok)
qed

lemma set_peak_coords:
  "set (peak_coords h w pk) = {(y, x). y < h \<and> x < w \<and> pk ! y ! x}"
  by (auto simp: peak_coords_def)

lemma distinct_rows:
  "distinct (concat (map (\<lambda>y. map (\<lambda>x. (y, x)) (filter (P y) [0..<w])) [0..<n]))"
proof (induction n)
  case 0
  then show ?case by simp
next
  case (Suc n)
  have "distinct (map (\<lambda>x. (n, x)) (filter (P n) [0..<w]))"
    by (simp add: distinct_map inj_on_def)
  then show ?case using Suc by auto
qed

lemma distinct_peak_coords: "distinct (peak_coords h w pk)"
  unfolding peak_coords_def by (rule distinct_rows)

lemma nth_peaks:
  "y < h \<Longrightarrow> x < w \<Longrightarrow>
   peaks h w pc mag thr ! y ! x = (\<not> center_mask h w pc y x \<and> thr < mag ! y ! x)"
  by (simp add: peaks_def)

lemma peak_in_grid:
  "p \<in> set (peak_coords h w pk) \<Longrightarrow> fst p < h \<and> snd p < w"
  by (auto simp: set_peak_coords)

subsection \<open>Kernel values\<close>

lemma kernel_bounds: "0 \<le> kernel r a b \<and> kernel r a b \<le> 1"
proof (cases "0 \<le> r \<and> a\<^sup>2 + b\<^sup>2 \<le> r\<^sup>2")
  case True
  then have "real_of_int (a\<^sup>2 + b\<^sup>2) \<le> real_of_int (r\<^sup>2)" by linarith
  moreover have "0 \<le> real_of_int (a\<^sup>2 + b\<^sup>2)" by simp
  moreover have "0 \<le> real_of_int (r\<^sup>2)" by simp
  ultimately have "0 \<le> real_of_int (a\<^sup>2 + b\<^sup>2) / real_of_int (r\<^sup>2)
      \<and> real_of_int (a\<^sup>2 + b\<^sup>2) / real_of_int (r\<^sup>2) \<le> 1"
    unfolding divide_le_eq_1 by (simp only: divide_nonneg_nonneg) argo
  then show ?thesis using True by (simp add: kernel_def del: of_int_add of_int_power)
next
  case False
  then show ?thesis by (auto simp: kernel_def)
qed

lemma prod_list_unit:
  "(\<And>v. v \<in> set vs \<Longrightarrow> 0 \<le> v \<and> v \<le> (1::real)) \<Longrightarrow> 0 \<le> prod_list vs \<and> prod_list vs \<le> 1"
proof (induction vs)
  case Nil
  then show ?case by simp
next
  case (Cons v vs)
  then have "0 \<le> v" "v \<le> 1" "0 \<le> prod_list vs" "prod_list vs \<le> 1" by auto
  then show ?case by (simp add: mult_le_one)
qed

lemma kernel_zero_radius: "kernel 0 a b = (if a = 0 \<and> b = 0 then 0 else 1)"
proof -
  have "a\<^sup>2 + b\<^sup>2 \<le> 0 \<longleftrightarrow> a = 0 \<and> b = 0"
    by (rule sum_power2_le_zero_iff)
  then show ?thesis by (simp add: kernel_def)
qed

lemma kernel_euclid:
  assumes "0 < r"
  shows "kernel r (int (fst b) - int (fst p)) (int (snd b) - int (snd p))
       = (if euclid b p \<le> real_of_int r then (euclid b p / real_of_int r)\<^sup>2 else 1)"
proof -
  let ?n = "(int (fst b) - int (fst p))\<^sup>2 + (int (snd b) - int (snd p))\<^sup>2"
  have n0: "0 \<le> ?n" by simp
  have le: "euclid b p \<le> real_of_int r \<longleftrightarrow> ?n \<le> r\<^sup>2"
    unfolding euclid_def using sqrt_le_int_iff [OF n0, of r] assms by simp
  have sq: "(euclid b p / real_of_int r)\<^sup>2 = real_of_int ?n / real_of_int (r\<^sup>2)"
    unfolding euclid_def using n0 by (simp add: power_divide)
  show ?thesis
    unfolding le sq using assms by (simp add: kernel_def del: of_int_add of_int_power)
qed

subsection \<open>The peak-notch mask, bin by bin\<close>

lemma peaks_mask_nth:
  assumes "threshold h w tp pc mag = Inr thr" "0 < h" "0 < w"
  shows "\<exists>msk. peaks_mask h w mag tp r pc = Inr msk \<and> rect h w msk
           \<and> (\<forall>y<h. \<forall>x<w. msk ! y ! x
                 = prod_list (map (\<lambda>p. kernel r (int y - int (fst p)) (int x - int (snd p)))
                                  (peak_coords h w (peaks h w pc mag thr))))"
proof -
  let ?ps = "peak_coords h w (peaks h w pc mag thr)"
  let ?m = "fold (\<lambda>p. fold (\<lambda>dy. fold (\<lambda>dx. notch_update h w r p dy dx) [- r .. r]) [- r .. r])
                 ?ps (ones h w)"
  have eq: "peaks_mask h w mag tp r pc = Inr ?m"
    by (simp add: peaks_mask_eq assms(1))
  have all: "rect h w ?m \<and> ?m ! y ! x
      = ones h w ! y ! x * prod_list (map (\<lambda>p. kernel r (int y - int (fst p)) (int x - int (snd p))) ?ps)"
    if "y < h" "x < w" for y x
    using rect_ones that by (rule notch_all_nth)
  have "rect h w ?m" using all [OF assms(2,3)] by simp
  moreover have "\<forall>y<h. \<forall>x<w. ?m ! y ! x
      = prod_list (map (\<lambda>p. kernel r (int y - int (fst p)) (int x - int (snd p))) ?ps)"
    using all by (simp add: nth_ones)
  ultimately show ?thesis using eq by blast
qed

lemma rect_magnitude: "rect h w f \<Longrightarrow> rect h w (magnitude f)"
  unfolding magnitude_def by (intro rect_map) simp_all

lemma filter_channel_unfold:
  assumes "rect h w channel" "0 < h" "0 < w"
  shows "fft_filter_channel channel tp r pc =
     (case peaks_mask h w (magnitude (forward channel)) tp r pc of
        Inl e \<Rightarrow> Inl e
      | Inr msk \<Rightarrow> Inr (inverse_transform (apply_mask (forward channel) msk)))"
  using assms by (simp add: fft_filter_channel_def Let_def rect_height rect_width)

lemma prod_list_kernel_set:
  assumes "distinct ps" "0 < r"
  shows "prod_list (map (\<lambda>p. kernel r (int (fst b) - int (fst p)) (int (snd b) - int (snd p))) ps)
       = (\<Prod>p\<in>{p \<in> set ps. euclid b p \<le> real_of_int r}. (euclid b p / real_of_int r)\<^sup>2)"
proof -
  have "prod_list (map (\<lambda>p. kernel r (int (fst b) - int (fst p)) (int (snd b) - int (snd p))) ps)
      = (\<Prod>p\<in>set ps. kernel r (int (fst b) - int (fst p)) (int (snd b) - int (snd p)))"
    using assms(1) by (simp add: prod.distinct_set_conv_list)
  also have "\<dots> = (\<Prod>p\<in>set ps. if euclid b p \<le> real_of_int r
                        then (euclid b p / real_of_int r)\<^sup>2 else 1)"
    by (simp only: kernel_euclid [OF assms(2)])
  also have "\<dots> = (\<Prod>p\<in>{p \<in> set ps. euclid b p \<le> real_of_int r}. (euclid b p / real_of_int r)\<^sup>2)"
    by (simp add: prod.inter_filter)
  finally show ?thesis .
qed

lemma euclid_self: "euclid p p = 0"
  by (simp add: euclid_def)

text \<open>
  C6. With \<open>notch_radius = r > 0\<close> the peak-notch filter builds its mask and returns; the
  mask value at each bin is the product, over the detected peaks within Euclidean
  distance r of the bin, of (distance / r) squared. A bin farther than r from every peak
  has mask value 1 and keeps its spectrum value; at each peak the mask and the filtered
  spectrum are 0.
\<close>

theorem notch_mask_product:
  assumes "rect h w channel" "0 < h" "0 < w" "0 \<le> tp" "tp \<le> 100" "0 < r"
  shows "\<exists>thr msk.
      threshold h w tp pc (magnitude (forward channel)) = Inr thr
    \<and> peaks_mask h w (magnitude (forward channel)) tp r pc = Inr msk
    \<and> fft_filter_channel channel tp r pc
        = Inr (inverse_transform (apply_mask (forward channel) msk))
    \<and> rect h w msk
    \<and> (\<forall>y<h. \<forall>x<w. msk ! y ! x
          = (\<Prod>p\<in>{p \<in> spectrum_peaks h w pc (magnitude (forward channel)) thr.
                      euclid (y, x) p \<le> real_of_int r}.
               (euclid (y, x) p / real_of_int r)\<^sup>2))
    \<and> (\<forall>y<h. \<forall>x<w.
          (\<forall>p\<in>spectrum_peaks h w pc (magnitude (forward channel)) thr.
              real_of_int r < euclid (y, x) p)
          \<longrightarrow> msk ! y ! x = 1
              \<and> apply_mask (forward channel) msk ! y ! x = forward channel ! y ! x)
    \<and> (\<forall>p\<in>spectrum_peaks h w pc (magnitude (forward channel)) thr.
          msk ! fst p ! snd p = 0 \<and> apply_mask (forward channel) msk ! fst p ! snd p = 0)"
proof -
  let ?f = "forward channel"
  let ?mag = "magnitude ?f"
  obtain thr where thr: "threshold h w tp pc ?mag = Inr thr"
    using threshold_ok [OF assms(2,3,4,5)] by blast
  let ?ps = "peak_coords h w (peaks h w pc ?mag thr)"
  let ?S = "spectrum_peaks h w pc ?mag thr"
  have S: "?S = set ?ps" by (simp add: spectrum_peaks_def)
  obtain msk where msk: "peaks_mask h w ?mag tp r pc = Inr msk" "rect h w msk"
    and val: "\<forall>y<h. \<forall>x<w. msk ! y ! x
        = prod_list (map (\<lambda>p. kernel r (int y - int (fst p)) (int x - int (snd p))) ?ps)"
    using peaks_mask_nth [OF thr assms(2,3)] by blast
  have rf: "rect h w ?f" using assms(1,2,3) by (rule rect_forward)
  have prod: "msk ! y ! x
      = (\<Prod>p\<in>{p \<in> ?S. euclid (y, x) p \<le> real_of_int r}. (euclid (y, x) p / real_of_int r)\<^sup>2)"
    if "y < h" "x < w" for y x
    using val that prod_list_kernel_set [OF distinct_peak_coords assms(6), of "(y, x)" h w]
    by (simp add: S)
  have far: "msk ! y ! x = 1 \<and> apply_mask ?f msk ! y ! x = ?f ! y ! x"
    if "y < h" "x < w" "\<forall>p\<in>?S. real_of_int r < euclid (y, x) p" for y x
  proof -
    have e: "{p \<in> ?S. euclid (y, x) p \<le> real_of_int r} = {}"
      using that(3) by (auto simp: not_le)
    have "msk ! y ! x = 1" unfolding prod [OF that(1,2)] e by (rule prod.empty)
    then show ?thesis
      using rf msk(2) that(1,2) by (simp add: nth_apply_mask [of h w])
  qed
  have atpeak: "msk ! fst p ! snd p = 0 \<and> apply_mask ?f msk ! fst p ! snd p = 0"
    if "p \<in> ?S" for p
  proof -
    have b: "fst p < h" "snd p < w"
      using that peak_in_grid [of p h w] by (simp_all add: S)
    let ?A = "{q \<in> ?S. euclid (fst p, snd p) q \<le> real_of_int r}"
    have "p \<in> ?A" using that assms(6) by (simp add: euclid_self)
    moreover have "finite ?A" by (simp add: S)
    moreover have "(euclid (fst p, snd p) p / real_of_int r)\<^sup>2 = 0"
      by (simp add: euclid_self)
    ultimately have "(\<Prod>q\<in>?A. (euclid (fst p, snd p) q / real_of_int r)\<^sup>2) = 0"
      by (intro prod_zero) blast+
    then have "msk ! fst p ! snd p = 0" using prod [OF b] by simp
    then show ?thesis
      using rf msk(2) b by (simp add: nth_apply_mask [of h w])
  qed
  have run: "fft_filter_channel channel tp r pc = Inr (inverse_transform (apply_mask ?f msk))"
    using assms(1,2,3) msk(1) by (simp add: filter_channel_unfold [of h w])
  show ?thesis
    using thr msk run prod far atpeak by blast
qed

theorem notch_mask_product_witness:
  "rect 2 2 [[3, 1], [0, 0 :: real]] \<and> (0::nat) < 2 \<and> (0::real) \<le> 50 \<and> (50::real) \<le> 100 \<and> (0::int) < 2
   \<and> (\<exists>thr msk.
      threshold 2 2 50 0 (magnitude (forward [[3, 1], [0, 0]])) = Inr thr
    \<and> peaks_mask 2 2 (magnitude (forward [[3, 1], [0, 0]])) 50 2 0 = Inr msk
    \<and> fft_filter_channel [[3, 1], [0, 0]] 50 2 0
        = Inr (inverse_transform (apply_mask (forward [[3, 1], [0, 0]]) msk))
    \<and> rect 2 2 msk
    \<and> (\<forall>y<2. \<forall>x<2. msk ! y ! x
          = (\<Prod>p\<in>{p \<in> spectrum_peaks 2 2 0 (magnitude (forward [[3, 1], [0, 0]])) thr.
                      euclid (y, x) p \<le> real_of_int 2}.
               (euclid (y, x) p / real_of_int 2)\<^sup>2))
    \<and> (\<forall>y<2. \<forall>x<2.
          (\<forall>p\<in>spectrum_peaks 2 2 0 (magnitude (forward [[3, 1], [0, 0]])) thr.
              real_of_int 2 < euclid (y, x) p)
          \<longrightarrow> msk ! y ! x = 1
              \<and> apply_mask (forward [[3, 1], [0, 0]]) msk ! y ! x = forward [[3, 1], [0, 0]] ! y ! x)
    \<and> (\<forall>p\<in>spectrum_peaks 2 2 0 (magnitude (forward [[3, 1], [0, 0]])) thr.
          msk ! fst p ! snd p = 0 \<and> apply_mask (forward [[3, 1], [0, 0]]) msk ! fst p ! snd p = 0))"
proof -
  have r: "rect 2 2 [[3, 1], [0, 0 :: real]]" by (simp add: rect_def)
  show ?thesis
    using r notch_mask_product [OF r, of 50 2 0] by simp
qed

subsection \<open>Bounds of the peak-notch mask\<close>

lemma peaks_mask_bounds:
  assumes "0 < h" "0 < w" "0 \<le> tp" "tp \<le> 100"
  shows "\<exists>msk. peaks_mask h w mag tp r pc = Inr msk \<and> rect h w msk
           \<and> (\<forall>y<h. \<forall>x<w. 0 \<le> msk ! y ! x \<and> msk ! y ! x \<le> 1)"
proof -
  obtain thr where thr: "threshold h w tp pc mag = Inr thr"
    using threshold_ok [OF assms] by blast
  obtain msk where msk: "peaks_mask h w mag tp r pc = Inr msk" "rect h w msk"
    and val: "\<forall>y<h. \<forall>x<w. msk ! y ! x
        = prod_list (map (\<lambda>p. kernel r (int y - int (fst p)) (int x - int (snd p)))
                         (peak_coords h w (peaks h w pc mag thr)))"
    using peaks_mask_nth [OF thr assms(1,2)] by blast
  have "0 \<le> prod_list (map (\<lambda>p. kernel r (int y - int (fst p)) (int x - int (snd p))) ps)
      \<and> prod_list (map (\<lambda>p. kernel r (int y - int (fst p)) (int x - int (snd p))) ps) \<le> 1"
    for y x ps
    by (rule prod_list_unit) (auto simp: kernel_bounds)
  then show ?thesis using msk val by auto
qed

text \<open>
  C4. For every well-formed channel and every valid configuration (attenuation in
  [0,1], notch_radius, line_width and protect_center not negative, threshold_percentile
  in [0,100]) both masks are built, have the shape of the channel, and hold only values
  in the closed interval [0,1].
\<close>

theorem mask_boundedness:
  assumes "rect h w channel" "0 < h" "0 < w"
    and "0 \<le> attenuation" "attenuation \<le> 1" "0 \<le> notch_radius" "0 \<le> line_width"
    and "0 \<le> threshold_percentile" "threshold_percentile \<le> 100" "0 \<le> protect_center"
  shows "rect h w (lines_mask h w line_width protect_center attenuation)
       \<and> (\<forall>y<h. \<forall>x<w.
            0 \<le> lines_mask h w line_width protect_center attenuation ! y ! x
          \<and> lines_mask h w line_width protect_center attenuation ! y ! x \<le> 1)
       \<and> (\<exists>msk. peaks_mask h w (magnitude (forward channel)) threshold_percentile notch_radius
                    protect_center = Inr msk
              \<and> rect h w msk
              \<and> (\<forall>y<h. \<forall>x<w. 0 \<le> msk ! y ! x \<and> msk ! y ! x \<le> 1))"
  using rect_lines_mask [of h w line_width protect_center attenuation]
    lines_mask_bounds [OF assms(4,5), of _ h _ w line_width protect_center]
    peaks_mask_bounds [OF assms(2,3,8,9), of "magnitude (forward channel)" notch_radius protect_center]
  by blast

theorem mask_boundedness_witness:
  "rect 2 2 [[3, 1], [0, 0 :: real]] \<and> (0::nat) < 2
   \<and> (0::real) \<le> 99 / 100 \<and> (99 / 100 :: real) \<le> 1 \<and> (0::int) \<le> 2 \<and> (0::int) \<le> 1
   \<and> (0::real) \<le> 50 \<and> (50::real) \<le> 100 \<and> (0::int) \<le> 0
   \<and> rect 2 2 (lines_mask 2 2 1 0 (99 / 100))
   \<and> 0 \<le> lines_mask 2 2 1 0 (99 / 100) ! 0 ! 1
   \<and> lines_mask 2 2 1 0 (99 / 100) ! 0 ! 1 \<le> 1
   \<and> (\<exists>msk. peaks_mask 2 2 (magnitude (forward [[3, 1], [0, 0]])) 50 2 0 = Inr msk
          \<and> rect 2 2 msk
          \<and> (\<forall>y<2. \<forall>x<2. 0 \<le> msk ! y ! x \<and> msk ! y ! x \<le> 1))"
proof -
  have r: "rect 2 2 [[3, 1], [0, 0 :: real]]" by (simp add: rect_def)
  have "rect 2 2 (lines_mask 2 2 1 0 (99 / 100))
       \<and> (\<forall>y<2. \<forall>x<2.
            0 \<le> lines_mask 2 2 1 0 (99 / 100) ! y ! x
          \<and> lines_mask 2 2 1 0 (99 / 100) ! y ! x \<le> 1)
       \<and> (\<exists>msk. peaks_mask 2 2 (magnitude (forward [[3, 1], [0, 0]])) 50 2 0 = Inr msk
              \<and> rect 2 2 msk
              \<and> (\<forall>y<2. \<forall>x<2. 0 \<le> msk ! y ! x \<and> msk ! y ! x \<le> 1))"
    using mask_boundedness [OF r, of "99 / 100" 2 1 50 0] by simp
  then show ?thesis using r by simp
qed

subsection \<open>Radius zero\<close>

lemma peaks_mask_not_div: "peaks_mask h w mag tp r pc \<noteq> Inl DivisionByZero"
  using percentile_not_div [of "concat (magnitude_for_threshold h w pc mag)" tp]
  by (auto simp: peaks_mask_eq threshold_def split: sum.splits)

lemma filter_channel_not_div: "fft_filter_channel channel tp r pc \<noteq> Inl DivisionByZero"
  using peaks_mask_not_div
  by (auto simp: fft_filter_channel_def Let_def split: sum.splits)

lemma prod_list_indicator:
  "prod_list (map (\<lambda>p. if p = b then 0 else (1::real)) ps) = (if b \<in> set ps then 0 else 1)"
  by (induction ps) auto

text \<open>
  C3, as the code has it. With \<open>notch_radius = 0\<close> the peak-notch filter returns on every
  well-formed channel and percentile in [0,100]: the only bin visited for a peak is the
  peak itself, at distance 0, where the factor is the constant 0 and the division is not
  evaluated. The mask is 0 at the detected peaks and 1 at every other bin.
\<close>

theorem notch_radius_zero:
  assumes "rect h w channel" "0 < h" "0 < w" "0 \<le> tp" "tp \<le> 100"
  shows "\<exists>thr msk.
      threshold h w tp pc (magnitude (forward channel)) = Inr thr
    \<and> peaks_mask h w (magnitude (forward channel)) tp 0 pc = Inr msk
    \<and> fft_filter_channel channel tp 0 pc
        = Inr (inverse_transform (apply_mask (forward channel) msk))
    \<and> rect h w msk
    \<and> (\<forall>y<h. \<forall>x<w. msk ! y ! x
          = (if (y, x) \<in> spectrum_peaks h w pc (magnitude (forward channel)) thr then 0 else 1))"
proof -
  let ?mag = "magnitude (forward channel)"
  obtain thr where thr: "threshold h w tp pc ?mag = Inr thr"
    using threshold_ok [OF assms(2,3,4,5)] by blast
  let ?ps = "peak_coords h w (peaks h w pc ?mag thr)"
  obtain msk where msk: "peaks_mask h w ?mag tp 0 pc = Inr msk" "rect h w msk"
    and val: "\<forall>y<h. \<forall>x<w. msk ! y ! x
        = prod_list (map (\<lambda>p. kernel 0 (int y - int (fst p)) (int x - int (snd p))) ?ps)"
    using peaks_mask_nth [OF thr assms(2,3)] by blast
  have k: "kernel 0 (int y - int (fst p)) (int x - int (snd p)) = (if p = (y, x) then 0 else 1)"
    for y x and p :: "nat \<times> nat"
    by (cases p) (auto simp: kernel_zero_radius)
  have "\<forall>y<h. \<forall>x<w. msk ! y ! x = (if (y, x) \<in> spectrum_peaks h w pc ?mag thr then 0 else 1)"
    using val unfolding k prod_list_indicator spectrum_peaks_def by simp
  moreover have "fft_filter_channel channel tp 0 pc
      = Inr (inverse_transform (apply_mask (forward channel) msk))"
    using assms(1,2,3) msk(1) by (simp add: filter_channel_unfold [of h w])
  ultimately show ?thesis using thr msk by blast
qed

subsection \<open>A two by two channel, evaluated\<close>

lemma twiddle_two: "twiddle (Suc (Suc 0)) j = (if even j then 1 else - 1)"
proof -
  have one: "cis (2 * pi * real_of_int k) = 1" for k
    by (rule cis_multiple_2pi) simp
  show ?thesis
  proof (cases "even j")
    case True
    then obtain k where "j = 2 * k" by (elim evenE)
    then have "2 * pi * real_of_int j / real (Suc (Suc 0)) = 2 * pi * real_of_int k" by simp
    then have "twiddle (Suc (Suc 0)) j = cis (2 * pi * real_of_int k)"
      by (simp only: twiddle_def)
    then show ?thesis using True one by simp
  next
    case False
    then obtain k where "j = 2 * k + 1" by (elim oddE)
    then have "2 * pi * real_of_int j / real (Suc (Suc 0)) = 2 * pi * real_of_int k + pi"
      by (simp add: field_simps)
    then have "twiddle (Suc (Suc 0)) j = cis (2 * pi * real_of_int k) * cis pi"
      by (simp only: twiddle_def cis_mult)
    then show ?thesis using False one by simp
  qed
qed

lemma fft_pair: "fft [a, b] = [a + b, a - b]"
  by (simp add: fft_def Let_def twiddle_two upt_rec [of 0] upt_rec [of 1] upt_rec [of 2]
      numeral_2_eq_2)

lemma forward_two_by_two:
  "forward [[a, b], [c, d]]
     = [[complex_of_real (a - b - c + d), complex_of_real (a + b - c - d)],
        [complex_of_real (a - b + c - d), complex_of_real (a + b + c + d)]]"
  by (simp add: forward_def fft2_def fft_pair transpose_grid_def height_def width_def
      fftshift_def roll_def upt_rec [of 0] upt_rec [of 1] upt_rec [of 2] numeral_2_eq_2
      rotate1_def algebra_simps)

lemma magnitude_example:
  "magnitude (forward [[3, 1], [0, 0]]) = [[2, 4], [2, 4]]"
  by (simp add: forward_two_by_two magnitude_def)

lemmas upt_two = upt_rec [of 0] upt_rec [of 1] upt_rec [of 2] numeral_2_eq_2

lemma threshold_example:
  "threshold 2 2 50 0 [[2, 4], [2, 4]] = Inr 2"
  by (simp add: threshold_def magnitude_for_threshold_def center_mask_def percentile_def
      Let_def upt_two)

lemma threshold_example_quarter:
  "threshold 2 2 25 0 [[2, 4], [2, 4]] = Inr (3 / 2)"
  by (simp add: threshold_def magnitude_for_threshold_def center_mask_def percentile_def
      Let_def upt_two)

lemma outside_example:
  "percentile (outside_values 2 2 0 [[2, 4], [2, 4]]) 25 = Inr 2"
  by (simp add: outside_values_def center_mask_def percentile_def Let_def upt_two)

lemma peak_coords_example:
  "peak_coords 2 2 (peaks 2 2 0 [[2, 4], [2, 4]] 2) = [(0, 1)]"
  by (simp add: peak_coords_def peaks_def center_mask_def upt_two)

lemma ones_two: "ones 2 2 = [[1, 1], [1, 1]]"
  by (simp add: ones_def numeral_2_eq_2)

lemma offsets_two: "[- 2 .. 2 :: int] = [- 2, - 1, 0, 1, 2]"
  by code_simp

lemma peaks_mask_example:
  "peaks_mask 2 2 [[2, 4], [2, 4]] 50 2 0 = Inr [[1 / 4, 0], [1 / 2, 1 / 4]]"
  by (simp add: peaks_mask_eq threshold_example peak_coords_example notch_update_def
      kernel_def mul_at_def ones_two offsets_two Let_def del: upto_rec_numeral)

lemma peaks_mask_example_zero:
  "peaks_mask 2 2 [[2, 4], [2, 4]] 50 0 0 = Inr [[1, 0], [1, 1]]"
  by (simp add: peaks_mask_eq threshold_example peak_coords_example notch_update_def
      kernel_def mul_at_def ones_two Let_def)

text \<open>
  C1, at a concrete channel. For the two by two channel with rows (3, 1) and (0, 0),
  \<open>threshold_percentile = 50\<close>, \<open>notch_radius = 2\<close> and \<open>protect_center = 0\<close>, the DC
  bin (1, 1) lies in the protected disc, the only detected peak is the bin (0, 1) next
  to it, and the mask of the peak-notch policy is 1/4 at the DC bin.
\<close>

theorem peak_notch_reaches_dc_bin:
  "center_mask 2 2 0 1 1
   \<and> peak_coords 2 2 (peaks 2 2 0 (magnitude (forward [[3, 1], [0, 0]])) 2) = [(0, 1)]
   \<and> peaks_mask 2 2 (magnitude (forward [[3, 1], [0, 0]])) 50 2 0
       = Inr [[1 / 4, 0], [1 / 2, 1 / 4]]"
  by (simp add: magnitude_example peaks_mask_example peak_coords_example center_mask_def)

subsection \<open>The sample of the threshold\<close>

lemma replicate_mset_plus: "replicate_mset (a + b) x = replicate_mset a x + replicate_mset b x"
  by (induction a) simp_all

lemma mset_zeroed_row:
  "mset (map (\<lambda>x. if P x then 0 else f x) L)
     = mset (map f (filter (\<lambda>x. \<not> P x) L)) + replicate_mset (length (filter P L)) (0::real)"
  by (induction L) simp_all

lemma mset_zeroed_grid:
  "mset (concat (map (\<lambda>y. map (\<lambda>x. if P y x then 0 else f y x) L) ys))
     = mset (concat (map (\<lambda>y. map (f y) (filter (\<lambda>x. \<not> P y x) L)) ys))
       + replicate_mset (sum_list (map (\<lambda>y. length (filter (P y) L)) ys)) (0::real)"
proof (induction ys)
  case Nil
  then show ?case by simp
next
  case (Cons a ys)
  show ?case
    unfolding list.map concat.simps mset_append sum_list.Cons replicate_mset_plus
      mset_zeroed_row [of "P a" "f a" L] Cons.IH
    by (simp only: ac_simps)
qed

lemma percentile_mset:
  assumes "mset a = mset b" shows "percentile a q = percentile b q"
proof -
  have "sort a = sort b"
    using assms by (intro properties_for_sort) simp_all
  moreover have "a = [] \<longleftrightarrow> b = []"
    using assms by (metis mset_zero_iff)
  ultimately show ?thesis by (simp add: percentile_def)
qed

text \<open>
  C2, as the code has it. The threshold is the percentile of all h * w values of the
  magnitude grid after the bins of the protected disc have been set to 0: each bin of
  the disc stays in the sample as a zero. It is the percentile of the values outside
  the disc together with one 0 for every bin of the disc.
\<close>

theorem threshold_sample:
  "threshold h w tp pc mag
     = percentile (outside_values h w pc mag @ replicate (inside_count h w pc) 0) tp
   \<and> length (outside_values h w pc mag @ replicate (inside_count h w pc) 0) = h * w"
proof -
  have m: "mset (concat (magnitude_for_threshold h w pc mag))
      = mset (outside_values h w pc mag @ replicate (inside_count h w pc) 0)"
    unfolding magnitude_for_threshold_def outside_values_def inside_count_def
    by (simp add: mset_zeroed_grid)
  have "length (concat (magnitude_for_threshold h w pc mag)) = h * w"
    unfolding magnitude_for_threshold_def by (rule length_concat_grid)
  then have "length (outside_values h w pc mag @ replicate (inside_count h w pc) 0) = h * w"
    using m by (metis size_mset)
  then show ?thesis
    unfolding threshold_def using percentile_mset [OF m] by simp
qed

theorem threshold_sample_counterexample:
  "threshold 2 2 25 0 (magnitude (forward [[3, 1], [0, 0]])) = Inr (3 / 2)
   \<and> percentile (outside_values 2 2 0 (magnitude (forward [[3, 1], [0, 0]]))) 25 = Inr 2
   \<and> threshold 2 2 25 0 (magnitude (forward [[3, 1], [0, 0]]))
       \<noteq> percentile (outside_values 2 2 0 (magnitude (forward [[3, 1], [0, 0]]))) 25"
  by (simp add: magnitude_example threshold_example_quarter outside_example)

theorem notch_radius_zero_counterexample:
  "\<not> (\<exists>channel tp pc. fft_filter_channel channel tp 0 pc = Inl DivisionByZero)"
  by (simp add: filter_channel_not_div)

theorem notch_radius_zero_witness:
  "rect 2 2 [[3, 1], [0, 0 :: real]] \<and> (0::nat) < 2 \<and> (0::real) \<le> 50 \<and> (50::real) \<le> 100
   \<and> peaks_mask 2 2 (magnitude (forward [[3, 1], [0, 0]])) 50 0 0 = Inr [[1, 0], [1, 1]]
   \<and> (\<exists>thr msk.
        threshold 2 2 50 0 (magnitude (forward [[3, 1], [0, 0]])) = Inr thr
      \<and> peaks_mask 2 2 (magnitude (forward [[3, 1], [0, 0]])) 50 0 0 = Inr msk
      \<and> fft_filter_channel [[3, 1], [0, 0]] 50 0 0
          = Inr (inverse_transform (apply_mask (forward [[3, 1], [0, 0]]) msk))
      \<and> rect 2 2 msk
      \<and> (\<forall>y<2. \<forall>x<2. msk ! y ! x
            = (if (y, x) \<in> spectrum_peaks 2 2 0 (magnitude (forward [[3, 1], [0, 0]])) thr
               then 0 else 1)))"
proof -
  have r: "rect 2 2 [[3, 1], [0, 0 :: real]]" by (simp add: rect_def)
  have e: "peaks_mask 2 2 (magnitude (forward [[3, 1], [0, 0]])) 50 0 0 = Inr [[1, 0], [1, 1]]"
    by (simp only: magnitude_example peaks_mask_example_zero)
  show ?thesis
    using r e notch_radius_zero [OF r, of 50 0] by simp
qed

section \<open>Whole images\<close>

subsection \<open>Filtering one plane\<close>

lemma lines_filter_ok:
  assumes "rect h w channel" "0 < h" "0 < w"
  shows "\<exists>out. fft_filter_channel_lines channel lw pc att = Inr out \<and> rect h w out"
proof -
  have "rect h w (inverse_transform (apply_mask (forward channel) (lines_mask h w lw pc att)))"
    using assms by (intro rect_inverse_transform rect_apply_mask rect_forward rect_lines_mask)
  then show ?thesis
    using assms by (simp add: fft_filter_channel_lines_def Let_def rect_height rect_width)
qed

lemma peaks_filter_ok:
  assumes "rect h w channel" "0 < h" "0 < w" "0 \<le> tp" "tp \<le> 100"
  shows "\<exists>out. fft_filter_channel channel tp r pc = Inr out \<and> rect h w out"
proof -
  obtain msk where msk: "peaks_mask h w (magnitude (forward channel)) tp r pc = Inr msk"
      "rect h w msk"
    using peaks_mask_bounds [OF assms(2,3,4,5)] by blast
  have "rect h w (inverse_transform (apply_mask (forward channel) msk))"
    using assms(1,2,3) msk(2) by (intro rect_inverse_transform rect_apply_mask rect_forward)
  then show ?thesis
    using assms(1,2,3) msk(1) by (simp add: filter_channel_unfold [of h w])
qed

lemma filter_plane_ok:
  assumes "rect h w channel" "0 < h" "0 < w" "method = ''lines'' \<or> (0 \<le> tp \<and> tp \<le> 100)"
  shows "\<exists>out. filter_plane method tp r pc lw att channel = Inr out \<and> rect h w out"
  using assms lines_filter_ok [OF assms(1,2,3)] peaks_filter_ok [OF assms(1,2,3)]
  by (auto simp: filter_plane_def)

subsection \<open>Planes of a multi-channel image\<close>

lemma rect3_rect: "rect3 h w c img \<Longrightarrow> rect h w img"
  by (simp add: rect3_def)

lemma rect3_px: "rect3 h w c img \<Longrightarrow> y < h \<Longrightarrow> x < w \<Longrightarrow> length (img ! y ! x) = c"
  by (auto simp: rect3_def rect_def list_all_length)

lemma rect3I:
  "rect h w img \<Longrightarrow> (\<And>y x. y < h \<Longrightarrow> x < w \<Longrightarrow> length (img ! y ! x) = c) \<Longrightarrow> rect3 h w c img"
  by (auto simp: rect3_def rect_def list_all_length)

lemma channels_rect3: "rect3 h w c img \<Longrightarrow> 0 < h \<Longrightarrow> 0 < w \<Longrightarrow> channels img = c"
  by (cases img; cases "hd img") (auto simp: channels_def rect3_def rect_def)

lemma rect_get_channel: "rect h w img \<Longrightarrow> rect h w (get_channel img k)"
  unfolding get_channel_def by (intro rect_map) simp_all

lemma nth_get_channel:
  "rect h w img \<Longrightarrow> y < h \<Longrightarrow> x < w \<Longrightarrow> get_channel img k ! y ! x = img ! y ! x ! k"
  by (simp add: get_channel_def rect_length rect_row)

lemma rect_set_channel: "rect h w res \<Longrightarrow> rect h w p \<Longrightarrow> rect h w (set_channel res k p)"
  by (rule rectI) (simp_all add: set_channel_def rect_length rect_row)

lemma nth_set_channel:
  "rect h w res \<Longrightarrow> rect h w p \<Longrightarrow> y < h \<Longrightarrow> x < w \<Longrightarrow>
   set_channel res k p ! y ! x = (res ! y ! x)[k := p ! y ! x]"
  by (simp add: set_channel_def rect_length rect_row)

lemma rect3_set_channel:
  assumes "rect3 h w c res" "rect h w p"
  shows "rect3 h w c (set_channel res k p)"
proof (rule rect3I)
  show "rect h w (set_channel res k p)"
    using assms by (simp add: rect_set_channel rect3_rect)
next
  fix y x assume "y < h" "x < w"
  then show "length (set_channel res k p ! y ! x) = c"
    using assms by (simp add: nth_set_channel [of h w] rect3_rect rect3_px [of h w c])
qed

lemma get_set_channel:
  assumes "rect3 h w c res" "rect h w p" "k < c"
  shows "get_channel (set_channel res k p) j = (if j = k then p else get_channel res j)"
proof -
  have r: "rect h w res" using assms(1) by (rule rect3_rect)
  have rs: "rect h w (set_channel res k p)" using r assms(2) by (rule rect_set_channel)
  show ?thesis
  proof (cases "j = k")
    case True
    have "get_channel (set_channel res k p) k = p"
    proof (rule grid_eqI [OF rect_get_channel [OF rs] assms(2)])
      fix y x assume "y < h" "x < w"
      then show "get_channel (set_channel res k p) k ! y ! x = p ! y ! x"
        using assms r rs
        by (simp add: nth_get_channel [of h w] nth_set_channel [of h w] rect3_px [of h w c])
    qed
    then show ?thesis using True by simp
  next
    case False
    have "get_channel (set_channel res k p) j = get_channel res j"
    proof (rule grid_eqI [OF rect_get_channel [OF rs] rect_get_channel [OF r]])
      fix y x assume "y < h" "x < w"
      then show "get_channel (set_channel res k p) j ! y ! x = get_channel res j ! y ! x"
        using assms r rs False
        by (simp add: nth_get_channel [of h w] nth_set_channel [of h w])
    qed
    then show ?thesis using False by simp
  qed
qed

lemma rect3_zeros_like:
  assumes "rect3 h w c img" shows "rect3 h w c (zeros_like img)"
proof (rule rect3I)
  show "rect h w (zeros_like img)"
    unfolding zeros_like_def using rect3_rect [OF assms] by (intro rect_map) simp_all
next
  fix y x assume "y < h" "x < w"
  then show "length (zeros_like img ! y ! x) = c"
    using assms rect3_rect [OF assms]
    by (simp add: zeros_like_def rect_length rect_row rect3_px [of h w c])
qed

lemma channel_loop:
  assumes "rect3 h w c res"
    and "\<And>k. k \<in> set ks \<Longrightarrow> k < c \<and> (\<exists>p. F k = Inr p \<and> rect h w p)"
  shows "\<exists>out. foldE (\<lambda>k result. case F k of Inl e \<Rightarrow> Inl e
                                   | Inr plane \<Rightarrow> Inr (set_channel result k plane)) ks res
             = Inr out
          \<and> rect3 h w c out
          \<and> (\<forall>j. (j \<in> set ks \<longrightarrow> F j = Inr (get_channel out j))
                \<and> (j \<notin> set ks \<longrightarrow> get_channel out j = get_channel res j))"
  using assms
proof (induction ks arbitrary: res)
  case Nil
  then show ?case by simp
next
  case (Cons k ks)
  obtain p where p: "k < c" "F k = Inr p" "rect h w p"
    using Cons.prems(2) [of k] by auto
  let ?res = "set_channel res k p"
  have r: "rect3 h w c ?res" using Cons.prems(1) p(3) by (rule rect3_set_channel)
  obtain out where out:
    "foldE (\<lambda>k result. case F k of Inl e \<Rightarrow> Inl e
                       | Inr plane \<Rightarrow> Inr (set_channel result k plane)) ks ?res = Inr out"
    "rect3 h w c out"
    "\<forall>j. (j \<in> set ks \<longrightarrow> F j = Inr (get_channel out j))
        \<and> (j \<notin> set ks \<longrightarrow> get_channel out j = get_channel ?res j)"
  proof -
    have "\<exists>out. foldE (\<lambda>k result. case F k of Inl e \<Rightarrow> Inl e
                       | Inr plane \<Rightarrow> Inr (set_channel result k plane)) ks ?res = Inr out
          \<and> rect3 h w c out
          \<and> (\<forall>j. (j \<in> set ks \<longrightarrow> F j = Inr (get_channel out j))
                \<and> (j \<notin> set ks \<longrightarrow> get_channel out j = get_channel ?res j))"
    proof (rule Cons.IH [OF r])
      fix k' assume "k' \<in> set ks"
      then show "k' < c \<and> (\<exists>p. F k' = Inr p \<and> rect h w p)"
        using Cons.prems(2) [of k'] by simp
    qed
    then show ?thesis using that by blast
  qed
  have g: "get_channel ?res j = (if j = k then p else get_channel res j)" for j
    using Cons.prems(1) p(3,1) by (rule get_set_channel)
  have "\<forall>j. (j \<in> set (k # ks) \<longrightarrow> F j = Inr (get_channel out j))
          \<and> (j \<notin> set (k # ks) \<longrightarrow> get_channel out j = get_channel res j)"
  proof (intro allI conjI impI)
    fix j assume j: "j \<in> set (k # ks)"
    show "F j = Inr (get_channel out j)"
    proof (cases "j \<in> set ks")
      case True
      then show ?thesis using out(3) by simp
    next
      case False
      then have "j = k" using j by simp
      then show ?thesis using out(3) False g [of k] p(2) by simp
    qed
  next
    fix j assume j: "j \<notin> set (k # ks)"
    then have "j \<notin> set ks" "j \<noteq> k" by simp_all
    then show "get_channel out j = get_channel res j"
      using out(3) g [of j] by simp
  qed
  then show ?case using out(1,2) p(2) by simp
qed

text \<open>
  C8, as the code has it. For every image with h > 0 rows and w > 0 columns, and every
  configuration whose \<open>threshold_percentile\<close> lies in [0,100] or whose method is the line
  policy, \<open>fft_remove_pattern\<close> returns an image of the same kind and shape: a grayscale
  input gives the single-channel filter's output, and channel k of the output of a
  multi-channel input is the single-channel filter applied to channel k of the input
  with the same parameters.
\<close>

theorem remove_pattern_shape_and_channels:
  assumes "0 < h" "0 < w" "method = ''lines'' \<or> (0 \<le> tp \<and> tp \<le> 100)"
  shows "(rect h w g \<longrightarrow>
            (\<exists>out. fft_remove_pattern (Gray g) tp r pc method lw att = Inr (Gray out)
                 \<and> rect h w out
                 \<and> filter_plane method tp r pc lw att g = Inr out))
       \<and> (rect3 h w c img \<longrightarrow>
            (\<exists>out. fft_remove_pattern (Color img) tp r pc method lw att = Inr (Color out)
                 \<and> rect3 h w c out
                 \<and> (\<forall>k<c. filter_plane method tp r pc lw att (get_channel img k)
                            = Inr (get_channel out k))))"
proof (intro conjI impI)
  assume g: "rect h w g"
  obtain out where "filter_plane method tp r pc lw att g = Inr out" "rect h w out"
    using filter_plane_ok [OF g assms] by blast
  then show "\<exists>out. fft_remove_pattern (Gray g) tp r pc method lw att = Inr (Gray out)
                 \<and> rect h w out \<and> filter_plane method tp r pc lw att g = Inr out"
    by (simp add: fft_remove_pattern_def)
next
  assume img: "rect3 h w c img"
  let ?F = "\<lambda>k. filter_plane method tp r pc lw att (get_channel img k)"
  have ch: "channels img = c" using img assms(1,2) by (rule channels_rect3)
  have ok: "k < c \<and> (\<exists>p. ?F k = Inr p \<and> rect h w p)" if "k \<in> set [0..<c]" for k
    using that filter_plane_ok [OF rect_get_channel [OF rect3_rect [OF img]] assms] by simp
  obtain out where out:
    "foldE (\<lambda>k result. case ?F k of Inl e \<Rightarrow> Inl e
                       | Inr plane \<Rightarrow> Inr (set_channel result k plane))
           [0..<c] (zeros_like img) = Inr out"
    "rect3 h w c out"
    "\<forall>j. (j \<in> set [0..<c] \<longrightarrow> ?F j = Inr (get_channel out j))
        \<and> (j \<notin> set [0..<c] \<longrightarrow> get_channel out j = get_channel (zeros_like img) j)"
    using channel_loop [of h w c "zeros_like img" "[0..<c]" ?F, OF rect3_zeros_like [OF img] ok]
    by blast
  have "fft_remove_pattern (Color img) tp r pc method lw att = Inr (Color out)"
    by (simp add: fft_remove_pattern_def ch out(1))
  moreover have "\<forall>k<c. ?F k = Inr (get_channel out k)"
    using out(3) by simp
  ultimately show "\<exists>out. fft_remove_pattern (Color img) tp r pc method lw att = Inr (Color out)
                 \<and> rect3 h w c out
                 \<and> (\<forall>k<c. ?F k = Inr (get_channel out k))"
    using out(2) by blast
qed

theorem remove_pattern_shape_and_channels_witness:
  "(0::nat) < 2 \<and> (''peaks'' = ''lines'' \<or> ((0::real) \<le> 50 \<and> (50::real) \<le> 100))
   \<and> rect 2 2 [[3, 1], [0, 0 :: real]]
   \<and> (\<exists>out. fft_remove_pattern (Gray [[3, 1], [0, 0]]) 50 2 0 ''peaks'' 2 (99 / 100)
               = Inr (Gray out)
          \<and> rect 2 2 out
          \<and> filter_plane ''peaks'' 50 2 0 2 (99 / 100) [[3, 1], [0, 0]] = Inr out)
   \<and> rect3 2 2 2 [[[3, 9], [1, 8]], [[0, 7], [0, 6 :: real]]]
   \<and> (\<exists>out. fft_remove_pattern (Color [[[3, 9], [1, 8]], [[0, 7], [0, 6]]]) 50 2 0 ''peaks'' 2
                 (99 / 100) = Inr (Color out)
          \<and> rect3 2 2 2 out
          \<and> (\<forall>k<2. filter_plane ''peaks'' 50 2 0 2 (99 / 100)
                       (get_channel [[[3, 9], [1, 8]], [[0, 7], [0, 6]]] k)
                     = Inr (get_channel out k)))"
proof -
  have a: "(0::nat) < 2" and m: "''peaks'' = ''lines'' \<or> ((0::real) \<le> 50 \<and> (50::real) \<le> 100)"
    by simp_all
  have g: "rect 2 2 [[3, 1], [0, 0 :: real]]" by (simp add: rect_def)
  have i: "rect3 2 2 2 [[[3, 9], [1, 8]], [[0, 7], [0, 6 :: real]]]"
    by (simp add: rect3_def rect_def)
  show ?thesis
    using a g i
      remove_pattern_shape_and_channels [OF a a m, of "[[3, 1], [0, 0]]" 2 0 2 "99 / 100" 2
        "[[[3, 9], [1, 8]], [[0, 7], [0, 6]]]"]
    by simp
qed

theorem remove_pattern_counterexample:
  "fft_remove_pattern (Gray [[5]]) 101 3 15 ''peaks'' 2 (99 / 100) = Inl PercentileRange"
  by (simp add: fft_remove_pattern_def filter_plane_def fft_filter_channel_def peaks_mask_def
      threshold_def percentile_def height_def width_def Let_def)

section \<open>Tiling\<close>

subsection \<open>Writing one tile\<close>

lemma rect_set_region:
  assumes "rect H W res" shows "rect H W (set_region res ys h xs w tile)"
proof (rule rectI)
  show "length (set_region res ys h xs w tile) = H"
    using assms by (simp add: set_region_def rect_length)
next
  fix y assume "y < H"
  then show "length (set_region res ys h xs w tile ! y) = W"
    using assms by (simp add: set_region_def rect_length rect_row)
qed

lemma nth_set_region:
  assumes "rect H W res" "y < H" "x < W"
  shows "set_region res ys h xs w tile ! y ! x
       = (if ys \<le> y \<and> y < ys + h \<and> xs \<le> x \<and> x < xs + w
          then tile ! (y - ys) ! (x - xs) else res ! y ! x)"
  using assms by (simp add: set_region_def rect_length rect_row)

lemma place_tile_eq:
  assumes "\<not> (extra_axis \<and> \<not> (h = 1 \<and> w = 1))"
  shows "place_tile h w extra_axis mirror image3 ty tx result
       = Inr (set_region result (ty * h) h (tx * w) w (mirrored mirror ty tx image3))"
  using assms by (auto simp: place_tile_def mirrored_def Let_def odd_iff_mod_2_eq_one)

lemma same_tile:
  assumes "b * h \<le> a * h + y" "a * h + y < b * h + h" "y < (h::nat)"
  shows "a = b"
proof -
  have h: "0 < h" using assms(3) by simp
  have "(a * h + y) div h = a" using assms(3) by simp
  moreover have "(a * h + y) div h = b"
  proof -
    obtain z where z: "a * h + y = b * h + z" "z < h"
      using assms(1,2) by (metis add.commute le_Suc_ex nat_add_left_cancel_less)
    show ?thesis unfolding z(1) using z(2) by simp
  qed
  ultimately show ?thesis by simp
qed

lemma tile_in_bounds:
  assumes "a < n" "y < (h::nat)" shows "a * h + y < n * h"
proof -
  have "a * h + y < a * h + h" using assms(2) by simp
  also have "\<dots> = Suc a * h" by simp
  also have "\<dots> \<le> n * h" using assms(1) by (intro mult_le_mono1) simp
  finally show ?thesis .
qed

lemma write_tile:
  assumes "rect (ny * h) (nx * w) res" "ty < ny" "tx < nx"
    and "tiles_written h w mirror image3 S res" "S \<subseteq> {..<ny} \<times> {..<nx}"
  shows "tiles_written h w mirror image3 (insert (ty, tx) S)
           (set_region res (ty * h) h (tx * w) w (mirrored mirror ty tx image3))"
  unfolding tiles_written_def
proof (intro allI impI)
  fix a b y x
  assume asm: "(a, b) \<in> insert (ty, tx) S \<and> y < h \<and> x < w"
  then have ab: "a < ny" "b < nx" and yx: "y < h" "x < w"
    using assms(2,3,5) by auto
  have bnd: "a * h + y < ny * h" "b * w + x < nx * w"
    using ab yx by (simp_all add: tile_in_bounds)
  let ?new = "set_region res (ty * h) h (tx * w) w (mirrored mirror ty tx image3)"
  show "?new ! (a * h + y) ! (b * w + x) = mirrored mirror a b image3 ! y ! x"
  proof (cases "ty * h \<le> a * h + y \<and> a * h + y < ty * h + h
              \<and> tx * w \<le> b * w + x \<and> b * w + x < tx * w + w")
    case True
    have "a = ty" using True yx(1) by (intro same_tile [of ty h a y]) simp_all
    moreover have "b = tx" using True yx(2) by (intro same_tile [of tx w b x]) simp_all
    ultimately show ?thesis
      using True nth_set_region [OF assms(1) bnd, of "ty * h" h "tx * w" w] by simp
  next
    case False
    then have "(a, b) \<noteq> (ty, tx)" using yx by auto
    then have "(a, b) \<in> S" using asm by auto
    then have "res ! (a * h + y) ! (b * w + x) = mirrored mirror a b image3 ! y ! x"
      using assms(4) yx by (simp add: tiles_written_def)
    moreover have "?new ! (a * h + y) ! (b * w + x) = res ! (a * h + y) ! (b * w + x)"
      by (rule trans [OF nth_set_region [OF assms(1) bnd]]) (simp only: False if_False)
    ultimately show ?thesis by simp
  qed
qed

lemma inner_loop:
  assumes "\<not> (extra_axis \<and> \<not> (h = 1 \<and> w = 1))"
    and "rect (ny * h) (nx * w) res" "ty < ny" "\<forall>tx\<in>set txs. tx < nx"
    and "tiles_written h w mirror image3 S res" "S \<subseteq> {..<ny} \<times> {..<nx}"
  shows "\<exists>out. foldE (place_tile h w extra_axis mirror image3 ty) txs res = Inr out
           \<and> rect (ny * h) (nx * w) out
           \<and> tiles_written h w mirror image3 (S \<union> {ty} \<times> set txs) out"
  using assms(2,4,5,6)
proof (induction txs arbitrary: res S)
  case Nil
  then show ?case by simp
next
  case (Cons tx txs)
  let ?res = "set_region res (ty * h) h (tx * w) w (mirrored mirror ty tx image3)"
  have tx: "tx < nx" using Cons.prems(2) by simp
  have r: "rect (ny * h) (nx * w) ?res" using Cons.prems(1) by (rule rect_set_region)
  have t: "tiles_written h w mirror image3 (insert (ty, tx) S) ?res"
    using Cons.prems(1) assms(3) tx Cons.prems(3,4) by (rule write_tile)
  have sub: "insert (ty, tx) S \<subseteq> {..<ny} \<times> {..<nx}"
    using Cons.prems(4) assms(3) tx by simp
  have rest: "\<forall>tx\<in>set txs. tx < nx" using Cons.prems(2) by simp
  have eq: "insert (ty, tx) S \<union> {ty} \<times> set txs = S \<union> {ty} \<times> set (tx # txs)"
    by auto
  show ?case
    using Cons.IH [OF r rest t sub] unfolding eq
    by (simp add: place_tile_eq [OF assms(1)])
qed

lemma outer_loop:
  assumes "\<not> (extra_axis \<and> \<not> (h = 1 \<and> w = 1))"
    and "rect (ny * h) (nx * w) res" "\<forall>ty\<in>set tys. ty < ny" "\<forall>tx\<in>set txs. tx < nx"
    and "tiles_written h w mirror image3 S res" "S \<subseteq> {..<ny} \<times> {..<nx}"
  shows "\<exists>out. foldE (\<lambda>ty. foldE (place_tile h w extra_axis mirror image3 ty) txs) tys res
             = Inr out
           \<and> rect (ny * h) (nx * w) out
           \<and> tiles_written h w mirror image3 (S \<union> set tys \<times> set txs) out"
  using assms(2,3,5,6)
proof (induction tys arbitrary: res S)
  case Nil
  then show ?case by simp
next
  case (Cons ty tys)
  have ty: "ty < ny" using Cons.prems(2) by simp
  obtain mid where mid:
    "foldE (place_tile h w extra_axis mirror image3 ty) txs res = Inr mid"
    "rect (ny * h) (nx * w) mid"
    "tiles_written h w mirror image3 (S \<union> {ty} \<times> set txs) mid"
    using inner_loop [OF assms(1) Cons.prems(1) ty assms(4) Cons.prems(3,4)] by blast
  have sub: "S \<union> {ty} \<times> set txs \<subseteq> {..<ny} \<times> {..<nx}"
    using Cons.prems(4) ty assms(4) by auto
  have rest: "\<forall>ty\<in>set tys. ty < ny" using Cons.prems(2) by simp
  have eq: "S \<union> {ty} \<times> set txs \<union> set tys \<times> set txs = S \<union> set (ty # tys) \<times> set txs"
    by auto
  show ?case
    using Cons.IH [OF mid(2) rest mid(3) sub] unfolding eq
    by (simp add: mid(1))
qed

subsection \<open>The tiled result\<close>

lemma rect_mirrored: "rect h w g \<Longrightarrow> rect h w (mirrored mirror ty tx g)"
  by (auto simp: mirrored_def flipud_def fliplr_def rect_def list_all_iff)

lemma mirrored_map: "mirrored mirror ty tx (map (map f) g) = map (map f) (mirrored mirror ty tx g)"
  by (simp add: mirrored_def flipud_def fliplr_def rev_map)

lemma rect_block: "rect h w (block g h w ty tx)"
  by (rule rectI) (simp_all add: block_def)

lemma block_written:
  assumes "tiles_written h w mirror image3 S out" "(ty, tx) \<in> S" "rect h w image3"
  shows "block out h w ty tx = mirrored mirror ty tx image3"
proof (rule grid_eqI [OF rect_block rect_mirrored [OF assms(3)]])
  fix y x assume "y < h" "x < w"
  then show "block out h w ty tx ! y ! x = mirrored mirror ty tx image3 ! y ! x"
    using assms(1,2) by (simp add: block_def tiles_written_def)
qed

lemma rect_zeros: "rect H W (zeros H W c)"
  by (rule rectI) (simp_all add: zeros_def)

lemma tile_loops:
  assumes "\<not> (extra_axis \<and> \<not> (h = 1 \<and> w = 1))" "rect h w image3"
  shows "\<exists>out. foldE (\<lambda>ty. foldE (place_tile h w extra_axis mirror image3 ty) [0..<nx])
                    [0..<ny] (zeros (ny * h) (nx * w) c) = Inr out
           \<and> rect (ny * h) (nx * w) out
           \<and> tiles_written h w mirror image3 ({..<ny} \<times> {..<nx}) out
           \<and> (\<forall>ty<ny. \<forall>tx<nx. block out h w ty tx = mirrored mirror ty tx image3)"
proof -
  have e: "tiles_written h w mirror image3 {} (zeros (ny * h) (nx * w) c)"
    by (simp add: tiles_written_def)
  obtain out where out:
    "foldE (\<lambda>ty. foldE (place_tile h w extra_axis mirror image3 ty) [0..<nx])
           [0..<ny] (zeros (ny * h) (nx * w) c) = Inr out"
    "rect (ny * h) (nx * w) out"
    "tiles_written h w mirror image3 ({} \<union> set [0..<ny] \<times> set [0..<nx]) out"
    using outer_loop [OF assms(1) rect_zeros, of "[0..<ny]" ny "[0..<nx]" nx mirror image3 "{}" c] e
    by auto
  have S: "{} \<union> set [0..<ny] \<times> set [0..<nx] = {..<ny} \<times> {..<nx}"
    by (simp add: atLeast0LessThan)
  have w: "tiles_written h w mirror image3 ({..<ny} \<times> {..<nx}) out"
    using out(3) unfolding S .
  have "\<forall>ty<ny. \<forall>tx<nx. block out h w ty tx = mirrored mirror ty tx image3"
    using block_written [OF w _ assms(2)] by simp
  then show ?thesis using out(1,2) w by blast
qed

lemma written_pixel:
  assumes "tiles_written h w mirror image3 ({..<ny} \<times> {..<nx}) out"
    and "Y < ny * h" "X < nx * w"
  shows "\<exists>ty tx y x. y < h \<and> x < w \<and> out ! Y ! X = mirrored mirror ty tx image3 ! y ! x"
proof -
  have h: "0 < h" and w: "0 < w" using assms(2,3) by (auto intro: Nat.gr0I)
  have Y: "Y div h < ny" "Y mod h < h" "Y = Y div h * h + Y mod h"
    using assms(2) h by (simp_all add: less_mult_imp_div_less)
  have X: "X div w < nx" "X mod w < w" "X = X div w * w + X mod w"
    using assms(3) w by (simp_all add: less_mult_imp_div_less)
  have "out ! (Y div h * h + Y mod h) ! (X div w * w + X mod w)
      = mirrored mirror (Y div h) (X div w) image3 ! (Y mod h) ! (X mod w)"
    using assms(1) Y(1,2) X(1,2) unfolding tiles_written_def by blast
  then have "out ! Y ! X = mirrored mirror (Y div h) (X div w) image3 ! (Y mod h) ! (X mod w)"
    by simp
  then show ?thesis using Y(2) X(2) by blast
qed

lemma rect3_mirrored:
  assumes "rect3 h w c g" shows "rect3 h w c (mirrored mirror ty tx g)"
  using assms by (auto simp: rect3_def mirrored_def flipud_def fliplr_def rect_def list_all_iff)

lemma block_map:
  assumes "rect (ny * h) (nx * w) G" "ty < ny" "tx < nx"
  shows "block (map (map f) G) h w ty tx = map (map f) (block G h w ty tx)"
proof (rule grid_eqI [OF rect_block])
  show "rect h w (map (map f) (block G h w ty tx))"
    by (intro rect_map rect_block) simp
next
  fix y x assume yx: "y < h" "x < w"
  have b: "ty * h + y < ny * h" "tx * w + x < nx * w"
    using assms(2,3) yx by (simp_all add: tile_in_bounds)
  show "block (map (map f) G) h w ty tx ! y ! x = map (map f) (block G h w ty tx) ! y ! x"
    using yx b assms(1) by (simp add: block_def rect_length rect_row)
qed

lemma tiled_texture_gray:
  assumes "rect (height g) (width g) g" "0 \<le> tiles_x" "0 \<le> tiles_y"
  shows "\<exists>out. create_tiled_texture (Gray g) tiles_x tiles_y mirror = Inr (Gray out)
           \<and> rect (nat tiles_y * height g) (nat tiles_x * width g) out
           \<and> (\<forall>ty<nat tiles_y. \<forall>tx<nat tiles_x.
                 block out (height g) (width g) ty tx = mirrored mirror ty tx g)"
proof -
  let ?h = "height g" and ?w = "width g"
  let ?ny = "nat tiles_y" and ?nx = "nat tiles_x"
  let ?i3 = "map (map (\<lambda>v. [v])) g"
  let ?f = "\<lambda>px. px ! 0"
  have r3: "rect ?h ?w ?i3" using assms(1) by (intro rect_map) simp_all
  obtain res where res:
    "foldE (\<lambda>ty. foldE (place_tile ?h ?w False mirror ?i3 ty) [0..<?nx])
           [0..<?ny] (zeros (?ny * ?h) (?nx * ?w) (Suc 0)) = Inr res"
    "rect (?ny * ?h) (?nx * ?w) res"
    "\<forall>ty<?ny. \<forall>tx<?nx. block res ?h ?w ty tx = mirrored mirror ty tx ?i3"
    using tile_loops [of False ?h ?w ?i3 mirror ?nx ?ny "Suc 0", OF _ r3] by auto
  have dims: "nat (int ?h * tiles_y) = ?ny * ?h" "nat (int ?w * tiles_x) = ?nx * ?w"
    "\<not> int ?h * tiles_y < 0" "\<not> int ?w * tiles_x < 0"
    using assms(2,3) by (simp_all add: nat_mult_distrib mult.commute not_less)
  have run: "create_tiled_texture (Gray g) tiles_x tiles_y mirror
      = Inr (Gray (map (map ?f) res))"
    by (simp add: create_tiled_texture_def Let_def dims res(1))
  have unwrap: "map (map ?f) ?i3 = g" by (simp add: comp_def)
  have "block (map (map ?f) res) ?h ?w ty tx = mirrored mirror ty tx g"
    if "ty < ?ny" "tx < ?nx" for ty tx
  proof -
    have "block (map (map ?f) res) ?h ?w ty tx = map (map ?f) (block res ?h ?w ty tx)"
      using res(2) that by (rule block_map)
    also have "\<dots> = map (map ?f) (mirrored mirror ty tx ?i3)"
      using res(3) that by simp
    also have "\<dots> = mirrored mirror ty tx (map (map ?f) ?i3)"
      by (rule mirrored_map [symmetric])
    also have "\<dots> = mirrored mirror ty tx g"
      by (simp only: unwrap)
    finally show ?thesis .
  qed
  moreover have "rect (?ny * ?h) (?nx * ?w) (map (map ?f) res)"
    using res(2) by (intro rect_map) simp_all
  ultimately show ?thesis using run by blast
qed

lemma tiled_texture_color:
  assumes "rect3 h w c img" "0 < h" "0 < w" "c \<noteq> 1" "0 \<le> tiles_x" "0 \<le> tiles_y"
  shows "\<exists>out. create_tiled_texture (Color img) tiles_x tiles_y mirror = Inr (Color out)
           \<and> rect3 (nat tiles_y * h) (nat tiles_x * w) c out
           \<and> (\<forall>ty<nat tiles_y. \<forall>tx<nat tiles_x. block out h w ty tx = mirrored mirror ty tx img)"
proof -
  let ?ny = "nat tiles_y" and ?nx = "nat tiles_x"
  have r: "rect h w img" using assms(1) by (rule rect3_rect)
  have hw: "height img = h" "width img = w" "channels img = c"
    using r assms(1,2,3) by (simp_all add: rect_height rect_width channels_rect3)
  obtain res where res:
    "foldE (\<lambda>ty. foldE (place_tile h w False mirror img ty) [0..<?nx])
           [0..<?ny] (zeros (?ny * h) (?nx * w) c) = Inr res"
    "rect (?ny * h) (?nx * w) res"
    "tiles_written h w mirror img ({..<?ny} \<times> {..<?nx}) res"
    "\<forall>ty<?ny. \<forall>tx<?nx. block res h w ty tx = mirrored mirror ty tx img"
    using tile_loops [of False h w img mirror ?nx ?ny c, OF _ r] by auto
  have dims: "nat (int h * tiles_y) = ?ny * h" "nat (int w * tiles_x) = ?nx * w"
    "\<not> int h * tiles_y < 0" "\<not> int w * tiles_x < 0"
    using assms(5,6) by (simp_all add: nat_mult_distrib mult.commute not_less)
  have run: "create_tiled_texture (Color img) tiles_x tiles_y mirror = Inr (Color res)"
    using assms(4) by (simp add: create_tiled_texture_def Let_def hw dims res(1))
  have "rect3 (?ny * h) (?nx * w) c res"
  proof (rule rect3I [OF res(2)])
    fix Y X assume "Y < ?ny * h" "X < ?nx * w"
    then obtain ty tx y x where p: "y < h" "x < w"
        "res ! Y ! X = mirrored mirror ty tx img ! y ! x"
      using written_pixel [OF res(3)] by blast
    show "length (res ! Y ! X) = c"
      unfolding p(3) using rect3_mirrored [OF assms(1)] p(1,2) by (rule rect3_px)
  qed
  then show ?thesis using run res(4) by blast
qed

text \<open>
  C10, at a concrete image. A 3-D image with a single channel, here of shape (2, 2, 1),
  is given a fourth axis by the \<open>channels == 1\<close> test, and writing the first tile into the
  3-D result fails: no tiled grid is returned. For 2-D images and for 3-D images whose
  channel count is not 1 the tiler returns the tiled grid, of the shape and with the
  blocks stated in \<open>tiled_texture_gray\<close> and \<open>tiled_texture_color\<close>.
\<close>

theorem single_channel_3d_tile_fails:
  "create_tiled_texture (Color [[[1], [2]], [[3], [4 :: int]]]) 2 2 True = Inl BroadcastError"
  by (simp add: create_tiled_texture_def Let_def height_def width_def channels_def
      place_tile_def upt_rec [of 0])

end
